theory Spec2Isabelle
  imports Main
begin

unbundle bit_operations_syntax

section \<open>Constants of logic.go\<close>

text \<open>
  Go's \<open>uint\<close> is modelled as \<open>nat\<close> and Go's \<open>int\<close> as \<open>int\<close>. The wrap-around of
  \<open>uint\<close> (64 bits) is written out at the two places of logic.go where a value can
  leave the range: the multiplication in \<open>randClassic\<close> and the subtraction
  \<open>a.Rank - 1\<close> in \<open>nextInSequence\<close>. Every other \<open>uint\<close> expression adds a small
  constant to a card rank or to a board location, or subtracts below a guard that
  bounds it.
\<close>

definition BLK :: nat where "BLK = 0"
definition RED :: nat where "RED = 1"

definition CLB :: nat where "CLB = 0"
definition DMD :: nat where "DMD = 1"
definition HRT :: nat where "HRT = 2"
definition SPD :: nat where "SPD = 3"

definition ACES :: nat where "ACES = 0"

definition AC :: nat where "AC = 0"
definition KC :: nat where "KC = 48"
definition KD :: nat where "KD = 49"
definition KH :: nat where "KH = 50"
definition KS :: nat where "KS = 51"

definition FC :: nat where "FC = 4"
definition FD :: nat where "FD = 5"
definition FH :: nat where "FH = 6"
definition FS :: nat where "FS = 7"

definition HIDDEN_CARD :: nat where "HIDDEN_CARD = 9999"
definition NO_CARD :: nat where "NO_CARD = 999"
definition EMPTY_PILE1 :: nat where "EMPTY_PILE1 = 100"
definition EMPTY_PILE16 :: nat where "EMPTY_PILE16 = 115"
definition MAX_BOARD_ID :: nat where "MAX_BOARD_ID = 167"
definition MAX_SEED :: nat where "MAX_SEED = 999999"
definition RAND_MAX_32 :: nat where "RAND_MAX_32 = 2147483647"

section \<open>Cards\<close>

record Card =
  ID :: nat
  Suit :: nat
  Rank :: nat
  Color :: nat
  Sym :: string

definition mkCard :: "nat \<Rightarrow> nat \<Rightarrow> nat \<Rightarrow> nat \<Rightarrow> string \<Rightarrow> Card" where
  "mkCard i s r c y = \<lparr>ID = i, Suit = s, Rank = r, Color = c, Sym = y\<rparr>"

text \<open>The sorted deck, entry by entry as in the table \<open>deck\<close> of logic.go.\<close>

definition deck :: "Card list" where
  "deck =
   [mkCard 0 0 0 0 ''AC'', mkCard 1 1 0 1 ''AD'', mkCard 2 2 0 1 ''AH'', mkCard 3 3 0 0 ''AS'',
    mkCard 4 0 1 0 ''2C'', mkCard 5 1 1 1 ''2D'', mkCard 6 2 1 1 ''2H'', mkCard 7 3 1 0 ''2S'',
    mkCard 8 0 2 0 ''3C'', mkCard 9 1 2 1 ''3D'', mkCard 10 2 2 1 ''3H'', mkCard 11 3 2 0 ''3S'',
    mkCard 12 0 3 0 ''4C'', mkCard 13 1 3 1 ''4D'', mkCard 14 2 3 1 ''4H'', mkCard 15 3 3 0 ''4S'',
    mkCard 16 0 4 0 ''5C'', mkCard 17 1 4 1 ''5D'', mkCard 18 2 4 1 ''5H'', mkCard 19 3 4 0 ''5S'',
    mkCard 20 0 5 0 ''6C'', mkCard 21 1 5 1 ''6D'', mkCard 22 2 5 1 ''6H'', mkCard 23 3 5 0 ''6S'',
    mkCard 24 0 6 0 ''7C'', mkCard 25 1 6 1 ''7D'', mkCard 26 2 6 1 ''7H'', mkCard 27 3 6 0 ''7S'',
    mkCard 28 0 7 0 ''8C'', mkCard 29 1 7 1 ''8D'', mkCard 30 2 7 1 ''8H'', mkCard 31 3 7 0 ''8S'',
    mkCard 32 0 8 0 ''9C'', mkCard 33 1 8 1 ''9D'', mkCard 34 2 8 1 ''9H'', mkCard 35 3 8 0 ''9S'',
    mkCard 36 0 9 0 ''TC'', mkCard 37 1 9 1 ''TD'', mkCard 38 2 9 1 ''TH'', mkCard 39 3 9 0 ''TS'',
    mkCard 40 0 10 0 ''JC'', mkCard 41 1 10 1 ''JD'', mkCard 42 2 10 1 ''JH'', mkCard 43 3 10 0 ''JS'',
    mkCard 44 0 11 0 ''QC'', mkCard 45 1 11 1 ''QD'', mkCard 46 2 11 1 ''QH'', mkCard 47 3 11 0 ''QS'',
    mkCard 48 0 12 0 ''KC'', mkCard 49 1 12 1 ''KD'', mkCard 50 2 12 1 ''KH'', mkCard 51 3 12 0 ''KS'']"

text \<open>\<open>InvalidCard\<close>: only ID and Sym are given, the other fields are Go's zero value.\<close>

definition InvalidCard :: Card where
  "InvalidCard = mkCard NO_CARD 0 0 0 ''--''"

definition isCard :: "nat \<Rightarrow> bool" where
  "isCard cardID \<longleftrightarrow> AC \<le> cardID \<and> cardID \<le> KS"

definition getCard :: "nat \<Rightarrow> Card" where
  "getCard cardID = (if isCard cardID then deck ! cardID else InvalidCard)"

section \<open>The classic random number generator and the shuffle\<close>

text \<open>
  \<open>rseed\<close> is a global of the program; here it is passed in and returned.
  \<open>randClassic\<close> returns the drawn number and the new seed.
\<close>

definition srand :: "nat \<Rightarrow> nat" where
  "srand x = x"

definition randClassic :: "nat \<Rightarrow> nat \<times> nat" where
  "randClassic rseed =
     (let rseed' = ((rseed * 214013 + 2531011) mod 2 ^ 64) AND RAND_MAX_32
      in (drop_bit 16 rseed', rseed'))"

text \<open>
  The local variables of \<open>shuffle\<close>. The arrays \<open>deck\<close> and \<open>deal\<close> have 52 entries; an
  index outside them, or a remainder of zero in \<open>%\<close>, is a run-time panic of Go and
  \<open>None\<close> here.
\<close>

record shuffle_vars =
  sv_rseed :: nat
  sv_deck :: "nat list"
  sv_deal :: "nat list"
  sv_dealt :: nat
  sv_remainder :: nat

definition shuffle_body :: "shuffle_vars \<Rightarrow> shuffle_vars option" where
  "shuffle_body v =
     (let (r, rseed') = randClassic (sv_rseed v) in
      if sv_remainder v = 0 then None
      else
        let j = r mod sv_remainder v in
        if \<not> (j < 52 \<and> sv_dealt v < 52) then None
        else
          let deal' = (sv_deal v)[sv_dealt v := sv_deck v ! j];
              dealt' = sv_dealt v + 1;
              remainder' = sv_remainder v - 1
          in if \<not> remainder' < 52 then None
             else Some \<lparr>sv_rseed = rseed',
                        sv_deck = (sv_deck v)[j := sv_deck v ! remainder'],
                        sv_deal = deal', sv_dealt = dealt', sv_remainder = remainder'\<rparr>)"

fun shuffle_loop :: "nat \<Rightarrow> shuffle_vars \<Rightarrow> shuffle_vars option" where
  "shuffle_loop 0 v = Some v"
| "shuffle_loop (Suc n) v =
     (case shuffle_body v of None \<Rightarrow> None | Some v' \<Rightarrow> shuffle_loop n v')"

definition shuffle :: "nat \<Rightarrow> Card list \<Rightarrow> Card list option" where
  "shuffle seed ordered =
     (case shuffle_loop 52
             \<lparr>sv_rseed = srand seed, sv_deck = [0..<52], sv_deal = replicate 52 NO_CARD,
              sv_dealt = 0, sv_remainder = 52\<rparr> of
        None \<Rightarrow> None
      | Some v \<Rightarrow>
          if list_all (\<lambda>d. d < 52) (sv_deal v)
          then Some (map (\<lambda>d. ordered ! d) (sv_deal v))
          else None)"

subsection \<open>The reference algorithm, as the specification words it\<close>

definition lcg_next :: "nat \<Rightarrow> nat" where
  "lcg_next state = (state * 214013 + 2531011) AND 0x7FFFFFFF"

definition lcg_yield :: "nat \<Rightarrow> nat" where
  "lcg_yield state = drop_bit 16 state"

text \<open>
  \<open>ref_draws n state w remainder\<close>: the ids emitted by \<open>n\<close> further draws from the
  working array \<open>w\<close>.
\<close>

fun ref_draws :: "nat \<Rightarrow> nat \<Rightarrow> nat list \<Rightarrow> nat \<Rightarrow> nat list" where
  "ref_draws 0 state w remainder = []"
| "ref_draws (Suc n) state w remainder =
     (let state' = lcg_next state;
          j = lcg_yield state' mod remainder
      in w ! j # ref_draws n state' (w[j := w ! (remainder - 1)]) (remainder - 1))"

definition ref_shuffle :: "nat \<Rightarrow> Card list \<Rightarrow> Card list" where
  "ref_shuffle seed ordered = map (\<lambda>i. ordered ! i) (ref_draws 52 seed [0..<52] 52)"

section \<open>Move history\<close>

text \<open>
  \<open>moves\<close>: the stack of board snapshots and the number of undos. Its methods
  \<open>record\<close>, \<open>undo\<close>, \<open>reset\<close> and \<open>count\<close> carry the prefix \<open>moves_\<close> here. The
  program keeps one \<open>moves\<close> value per session behind a pointer that nothing else
  shares, so it is a field by value.
\<close>

record moves =
  stack :: "nat list list"
  undos :: int

definition moves_record :: "moves \<Rightarrow> nat list \<Rightarrow> moves" where
  "moves_record mv move = mv\<lparr>stack := stack mv @ [move]\<rparr>"

text \<open>
  \<open>undo\<close> returns the board on top of the stack and the updated history. On an empty
  stack the index \<open>len(mv.stack)-1\<close> is out of range, a panic: \<open>None\<close>.
\<close>

definition moves_undo :: "moves \<Rightarrow> (nat list \<times> moves) option" where
  "moves_undo mv =
     (let mv' = (if length (stack mv) > 1
                 then mv\<lparr>stack := butlast (stack mv), undos := undos mv + 1\<rparr>
                 else mv)
      in if stack mv' = [] then None else Some (last (stack mv'), mv'))"

definition moves_reset :: "moves \<Rightarrow> moves" where
  "moves_reset mv = mv\<lparr>stack := [], undos := 0\<rparr>"

definition moves_count :: "moves \<Rightarrow> int" where
  "moves_count mv = int (length (stack mv)) + undos mv * 2"

section \<open>Board queries\<close>

text \<open>
  The board is Go's \<open>[52]uint\<close>, a list of 52 locations indexed by card id. The
  methods of \<open>logic\<close> that read nothing but \<open>l.board\<close> take the board. Every index into
  the board is a card id checked by \<open>isCard\<close> or produced by a scan over the ids 0 to
  51, so that no read or write of the board is out of range.
\<close>

definition isCascade :: "nat \<Rightarrow> bool" where
  "isCascade boardID \<longleftrightarrow> 8 \<le> boardID \<and> boardID \<le> MAX_BOARD_ID"

definition isFoundation :: "nat \<Rightarrow> bool" where
  "isFoundation boardID \<longleftrightarrow> 4 \<le> boardID \<and> boardID \<le> 7"

definition isFreecell :: "nat \<Rightarrow> bool" where
  "isFreecell boardID \<longleftrightarrow> 0 \<le> boardID \<and> boardID \<le> 3"

definition cardAt :: "nat list \<Rightarrow> nat \<Rightarrow> nat" where
  "cardAt b boardPosition =
     (case find (\<lambda>cid. b ! cid = boardPosition) [AC..<KS + 1] of
        Some cid \<Rightarrow> cid
      | None \<Rightarrow> NO_CARD)"

definition isLastInCascade :: "nat list \<Rightarrow> nat \<Rightarrow> bool" where
  "isLastInCascade b cardID =
     (let boardLocation = b ! cardID in
      if 8 \<le> boardLocation \<and> boardLocation \<le> MAX_BOARD_ID
      then cardAt b (boardLocation + 8) = NO_CARD
      else False)"

definition lastInCascade :: "nat list \<Rightarrow> nat \<Rightarrow> Card" where
  "lastInCascade b cascadeID =
     (case find (\<lambda>cid. isLastInCascade b cid \<and> cascadeID = b ! cid mod 8) [AC..<KS + 1] of
        Some cid \<Rightarrow> deck ! cid
      | None \<Rightarrow> InvalidCard)"

definition emptyPile :: "nat list \<Rightarrow> nat \<Rightarrow> bool" where
  "emptyPile b pileID =
     (if 0 \<le> pileID \<and> pileID \<le> 15
      then find (\<lambda>cid. b ! cid = pileID) [AC..<KS + 1] = None
      else False)"

definition countEmptyCells :: "nat list \<Rightarrow> nat list \<Rightarrow> int" where
  "countEmptyCells b piles =
     fold (\<lambda>pileID empty. if emptyPile b pileID then empty + 1 else empty) piles 0"

definition emptyFreeCells :: "nat list \<Rightarrow> int" where
  "emptyFreeCells b = countEmptyCells b [0, 1, 2, 3]"

definition emptyCascades :: "nat list \<Rightarrow> int" where
  "emptyCascades b = countEmptyCells b [8, 9, 10, 11, 12, 13, 14, 15]"

text \<open>\<open>a.Rank - 1\<close> is a \<open>uint\<close> subtraction: on rank 0 it wraps to the largest value.\<close>

definition nextInSequence :: "Card \<Rightarrow> Card \<Rightarrow> bool" where
  "nextInSequence a b \<longleftrightarrow>
     Rank b = (Rank a + 2 ^ 64 - 1) mod 2 ^ 64 \<and> Color b \<noteq> Color a"

definition isNextInFoundation :: "nat \<Rightarrow> Card \<Rightarrow> Card \<Rightarrow> bool" where
  "isNextInFoundation suit a b =
     (if suit > SPD then False
      else
        let onEmpty = (ID a = NO_CARD \<and> Suit b = suit \<and> Rank b = ACES);
            onCard = (ID a \<noteq> NO_CARD \<and> Suit b = suit \<and> Rank b = Rank a + 1)
        in onEmpty \<or> onCard)"

definition canMoveToCascade :: "nat list \<Rightarrow> nat \<Rightarrow> bool" where
  "canMoveToCascade b cardID =
     (let c = getCard cardID in
      list_ex (\<lambda>cascadeID.
                 let lastCardInCascade = lastInCascade b cascadeID in
                 ID lastCardInCascade \<noteq> NO_CARD \<and>
                 nextInSequence (getCard (ID lastCardInCascade)) c)
              [0..<8])"

definition movableStackSize :: "nat list \<Rightarrow> bool \<Rightarrow> int" where
  "movableStackSize b isEmptyCascadeUsed =
     (let emptyCascades0 = emptyCascades b in
      if emptyCascades0 \<le> 0 then emptyFreeCells b + 1
      else
        let emptyCascades1 = (if isEmptyCascadeUsed then emptyCascades0 - 1 else emptyCascades0)
        in if emptyCascades1 > 0
           then let extraCascades = emptyCascades1 - 1
                in 2 * (emptyFreeCells b + 1 + extraCascades)
           else emptyFreeCells b + 1)"

text \<open>
  The loop of \<open>getSequence\<close>, over the variables \<open>cardID\<close>, \<open>nextCardID\<close> and \<open>v\<close>; the
  safety trigger at 13 cards leaves the loop.
\<close>

function getSequence_loop :: "nat list \<Rightarrow> nat \<Rightarrow> nat \<Rightarrow> nat list \<Rightarrow> nat list" where
  "getSequence_loop b cardID nextCardID v =
     (if nextCardID \<noteq> NO_CARD \<and> nextInSequence (getCard cardID) (getCard nextCardID)
      then if length v \<ge> 13 then v
           else getSequence_loop b nextCardID (cardAt b (b ! nextCardID + 8)) (v @ [nextCardID])
      else v)"
  by pat_completeness auto
termination
  by (relation "measure (\<lambda>(b, cardID, nextCardID, v). 13 - length v)") auto

declare getSequence_loop.simps [simp del]

definition getSequence :: "nat list \<Rightarrow> nat \<Rightarrow> nat list" where
  "getSequence b cardID =
     (let boardPosition = b ! cardID in
      if isCascade boardPosition then
        let v = getSequence_loop b cardID (cardAt b (boardPosition + 8)) [cardID];
            lastCard = last v
        in if cardAt b (b ! lastCard + 8) \<noteq> NO_CARD then []
           else
             let needsEmptyCascade = \<not> canMoveToCascade b (hd v)
             in if int (length v) > movableStackSize b needsEmptyCascade then [] else v
      else if isFreecell boardPosition then [cardID]
      else [])"

definition canSelectCard :: "nat list \<Rightarrow> nat \<Rightarrow> bool" where
  "canSelectCard b pick =
     (if \<not> isCard pick then False
      else
        let boardPick = b ! pick in
        if isFoundation boardPick then False
        else if isCascade boardPick \<or> isFreecell boardPick then
          let seq = getSequence b pick in
          if length seq \<le> 0 then False
          else
            let c = getCard (hd seq);
                further = (if emptyCascades b > 0 then True else canMoveToCascade b (hd seq))
            in if length seq = 1 then
                 if emptyFreeCells b > 0 then True
                 else
                   let foundationPileID = Suit c + 4 in
                   if emptyPile b foundationPileID \<and> Rank c = ACES then True
                   else
                     let topCard = getCard (cardAt b foundationPileID) in
                     if isNextInFoundation (Suit c) topCard c then True else further
               else further
        else False)"

section \<open>The session state and the selection\<close>

record logic =
  selected :: nat
  gameSeed :: nat
  deal :: "Card list"
  board :: "nat list"
  moves :: moves

definition clearSelected :: "logic \<Rightarrow> logic" where
  "clearSelected l = l\<lparr>selected := NO_CARD\<rparr>"

definition isSelectionActive :: "logic \<Rightarrow> bool" where
  "isSelectionActive l = isCard (selected l)"

text \<open>
  The loop of \<open>GetSelected\<close>, over \<open>cardID\<close>, \<open>nextCardID\<close> and \<open>v\<close>; it stops at
  \<open>maxCascade\<close> = 10 cards.
\<close>

function GetSelected_loop :: "nat list \<Rightarrow> nat \<Rightarrow> nat \<Rightarrow> nat list \<Rightarrow> nat list" where
  "GetSelected_loop b cardID nextCardID v =
     (if nextCardID \<noteq> NO_CARD \<and> nextInSequence (getCard cardID) (getCard nextCardID)
         \<and> length v < 10
      then GetSelected_loop b nextCardID (cardAt b (b ! nextCardID + 8)) (v @ [nextCardID])
      else v)"
  by pat_completeness auto
termination
  by (relation "measure (\<lambda>(b, cardID, nextCardID, v). 10 - length v)") auto

declare GetSelected_loop.simps [simp del]

definition GetSelected :: "logic \<Rightarrow> nat list" where
  "GetSelected l =
     (if \<not> isSelectionActive l then []
      else
        let boardPosition = board l ! selected l in
        if isCascade boardPosition
        then GetSelected_loop (board l) (selected l) (cardAt (board l) (boardPosition + 8))
               [selected l]
        else [selected l])"

definition isSelected :: "logic \<Rightarrow> nat \<Rightarrow> bool" where
  "isSelected l cardID = list_ex (\<lambda>cid. cid = cardID) (GetSelected l)"

section \<open>Legality of a pick\<close>

text \<open>
  \<open>canPlaceCard\<close> reads \<open>selects[0]\<close>; it is called with an active selection only, where
  \<open>GetSelected\<close> starts with the selected card.
\<close>

definition canPlaceCard :: "logic \<Rightarrow> nat \<Rightarrow> bool" where
  "canPlaceCard l pick =
     (let selects = GetSelected l in
      if EMPTY_PILE1 \<le> pick \<and> pick \<le> EMPTY_PILE16 then
        let s = getCard (hd selects);
            pileID = pick - EMPTY_PILE1
        in if isFreecell pileID \<and> length selects = 1 then emptyPile (board l) pileID
           else if isFoundation pileID \<and> length selects = 1
                then Suit s = pileID - 4 \<and> Rank s = ACES
           else if 8 \<le> pileID \<and> pileID \<le> 15 then emptyPile (board l) pileID
           else False
      else
        let cardID = pick in
        if isCard cardID then
          let p = getCard cardID;
              s = getCard (hd selects);
              boardPick = board l ! cardID
          in if isFoundation boardPick \<and> length selects = 1
             then let suit = boardPick - 4 in isNextInFoundation suit p s
             else if isCascade boardPick
                  then (if isLastInCascade (board l) cardID then nextInSequence p s else False)
             else False
        else False)"

definition canInteract :: "logic \<Rightarrow> nat \<Rightarrow> bool" where
  "canInteract l pick =
     (if isSelectionActive l then canPlaceCard l pick else canSelectCard (board l) pick)"

section \<open>Interact\<close>

text \<open>\<open>commit\<close> is the statement \<open>l.moves.record(l.board)\<close> that ends every move.\<close>

definition commit :: "logic \<Rightarrow> logic" where
  "commit l = l\<lparr>moves := moves_record (moves l) (board l)\<rparr>"

definition setBoard :: "logic \<Rightarrow> nat \<Rightarrow> nat \<Rightarrow> logic" where
  "setBoard l cardID boardID = l\<lparr>board := (board l)[cardID := boardID]\<rparr>"

text \<open>
  The loop \<open>for i := 1; i < len(seq); i++ { l.board[seq[i]] = l.board[seq[i-1]] + 8 }\<close>:
  \<open>prev\<close> is \<open>seq[i-1]\<close> and the list holds \<open>seq[i]\<close> onwards.
\<close>

fun moveRest :: "logic \<Rightarrow> nat \<Rightarrow> nat list \<Rightarrow> logic" where
  "moveRest l prev [] = l"
| "moveRest l prev (c # cs) = moveRest (setBoard l c (board l ! prev + 8)) c cs"

definition moveSequence :: "logic \<Rightarrow> nat list \<Rightarrow> nat \<Rightarrow> logic" where
  "moveSequence l seq boardID = moveRest (setBoard l (hd seq) boardID) (hd seq) (tl seq)"

text \<open>
  The placement part of \<open>Interact\<close>, entered with the selection already cleared:
  \<open>s\<close> is the selected card, \<open>seq\<close> its sequence.
\<close>

definition placeSelected :: "logic \<Rightarrow> Card \<Rightarrow> nat list \<Rightarrow> nat \<Rightarrow> bool \<times> logic" where
  "placeSelected l s seq pick =
     (if EMPTY_PILE1 \<le> pick \<and> pick \<le> EMPTY_PILE16 then
        let pileID = pick - EMPTY_PILE1 in
        if isFreecell pileID \<and> length seq = 1 then
          if emptyPile (board l) pileID
          then (True, commit (setBoard l (ID s) pileID))
          else (False, l)
        else if isFoundation pileID \<and> length seq = 1 then
          if Suit s = pileID - 4 \<and> emptyPile (board l) pileID \<and> Rank s = ACES
          then (True, commit (setBoard l (ID s) pileID))
          else (False, l)
        else if 8 \<le> pileID \<and> pileID \<le> 15 then
          if emptyPile (board l) pileID then
            if int (length seq) > movableStackSize (board l) True then (False, l)
            else (True, commit (moveSequence l seq pileID))
          else (False, l)
        else (False, l)
      else if isCard pick then
        let p = getCard pick;
            boardPick = board l ! ID p
        in if isFoundation boardPick \<and> length seq = 1 then
             if Rank s = Rank p + 1
             then (True, commit (setBoard (setBoard l (ID p) (board l ! ID p + HIDDEN_CARD))
                                   (ID s) boardPick))
             else (False, l)
           else if isCascade boardPick then
             if nextInSequence p s
             then (True, commit (moveSequence l seq (board l ! ID p + 8)))
             else (False, l)
           else (False, l)
      else (False, l))"

definition Interact :: "logic \<Rightarrow> nat \<Rightarrow> bool \<times> logic" where
  "Interact l pick =
     (if \<not> canInteract l pick then
        let previousPick = selected l;
            l1 = clearSelected l
        in if pick \<noteq> previousPick \<and> isCard pick \<and> canInteract l1 pick
           then (False, l1\<lparr>selected := pick\<rparr>)
           else (False, l1)
      else if isSelectionActive l then
        let s = getCard (selected l);
            seq = GetSelected l;
            l1 = clearSelected l
        in placeSelected l1 s seq pick
      else if isCard pick then (False, l\<lparr>selected := pick\<rparr>)
      else (False, l))"

section \<open>AutoMoveCard\<close>

text \<open>
  The four arms of the switch on the suit run the same statements on the foundation
  card of that suit: hide it if there is one, move the candidate up, record the
  board, and clear the selection if the candidate is in it.
\<close>

definition promote :: "logic \<Rightarrow> Card \<Rightarrow> Card \<Rightarrow> nat \<Rightarrow> logic" where
  "promote l f c boardID =
     (let l1 = (if ID f \<noteq> NO_CARD
                then setBoard l (ID f) (board l ! ID f + HIDDEN_CARD)
                else l);
          l2 = commit (setBoard l1 (ID c) boardID)
      in if isSelected l2 (ID c) then clearSelected l2 else l2)"

fun scanCandidates ::
  "logic \<Rightarrow> Card \<Rightarrow> Card \<Rightarrow> Card \<Rightarrow> Card \<Rightarrow> int \<Rightarrow> Card list \<Rightarrow> bool \<times> logic" where
  "scanCandidates l fc fd fh fs minRank [] = (False, l)"
| "scanCandidates l fc fd fh fs minRank (c # cs) =
     (if ID c = NO_CARD then scanCandidates l fc fd fh fs minRank cs
      else if int (Rank c) \<noteq> minRank + 1 \<and> int (Rank c) \<noteq> minRank + 2
      then scanCandidates l fc fd fh fs minRank cs
      else
        let boardID = Suit c + 4 in
        if Suit c = CLB then
          if isNextInFoundation (Suit c) fc c then (True, promote l fc c boardID)
          else scanCandidates l fc fd fh fs minRank cs
        else if Suit c = DMD then
          if isNextInFoundation (Suit c) fd c then (True, promote l fd c boardID)
          else scanCandidates l fc fd fh fs minRank cs
        else if Suit c = HRT then
          if isNextInFoundation (Suit c) fh c then (True, promote l fh c boardID)
          else scanCandidates l fc fd fh fs minRank cs
        else if Suit c = SPD then
          if isNextInFoundation (Suit c) fs c then (True, promote l fs c boardID)
          else scanCandidates l fc fd fh fs minRank cs
        else scanCandidates l fc fd fh fs minRank cs)"

definition AutoMoveCard :: "logic \<Rightarrow> bool \<times> logic" where
  "AutoMoveCard l =
     (if moves_count (moves l) < 2 then (False, l)
      else
        let b = board l;
            fc = getCard (cardAt b FC);
            fd = getCard (cardAt b FD);
            fh = getCard (cardAt b FH);
            fs = getCard (cardAt b FS);
            minRank = (if ID fc \<noteq> NO_CARD \<and> ID fd \<noteq> NO_CARD \<and>
                          ID fh \<noteq> NO_CARD \<and> ID fs \<noteq> NO_CARD
                       then min (min (min (int (Rank fc)) (int (Rank fd))) (int (Rank fh)))
                              (int (Rank fs))
                       else - 1);
            candidates =
              [getCard (cardAt b 0), getCard (cardAt b 1), getCard (cardAt b 2),
               getCard (cardAt b 3),
               lastInCascade b 0, lastInCascade b 1, lastInCascade b 2, lastInCascade b 3,
               lastInCascade b 4, lastInCascade b 5, lastInCascade b 6, lastInCascade b 7]
        in scanCandidates l fc fd fh fs minRank candidates)"

section \<open>NewGame, Undo, MoveCount\<close>

text \<open>
  \<open>NewGame\<close> replaces the history by a fresh one, clears the selection, deals, and
  records the dealt board. A panic inside \<open>shuffle\<close> would end it: \<open>None\<close>.
\<close>

definition dealBoard :: "Card list \<Rightarrow> nat list \<Rightarrow> nat list" where
  "dealBoard d b = fold (\<lambda>cid b'. b'[ID (d ! cid) := cid + 8]) [AC..<KS + 1] b"

definition NewGame :: "logic \<Rightarrow> nat \<Rightarrow> logic option" where
  "NewGame l seed =
     (let l1 = l\<lparr>gameSeed := seed, moves := \<lparr>stack = [], undos = 0\<rparr>\<rparr>;
          l2 = clearSelected l1
      in case shuffle seed deck of
           None \<Rightarrow> None
         | Some d \<Rightarrow>
             let l3 = l2\<lparr>deal := d\<rparr>;
                 l4 = l3\<lparr>board := dealBoard (deal l3) (board l3)\<rparr>;
                 l5 = l4\<lparr>moves := moves_reset (moves l4)\<rparr>
             in Some (commit l5))"

definition Undo :: "logic \<Rightarrow> logic option" where
  "Undo l =
     (let l1 = clearSelected l in
      case moves_undo (moves l1) of
        None \<Rightarrow> None
      | Some (previousBoard, mv) \<Rightarrow> Some (l1\<lparr>board := previousBoard, moves := mv\<rparr>))"

definition MoveCount :: "logic \<Rightarrow> int" where
  "MoveCount l = (if moves_count (moves l) > 0 then moves_count (moves l) - 1 else 0)"

section \<open>Sessions\<close>

text \<open>
  The value \<open>&logic{}\<close> that game.go creates before the first \<open>NewGame\<close>: every field
  is Go's zero value. Its history pointer is nil; nothing but \<open>NewGame\<close>, which
  replaces it, is run on this value.
\<close>

definition logic0 :: logic where
  "logic0 = \<lparr>selected = 0, gameSeed = 0, deal = replicate 52 (mkCard 0 0 0 0 []),
             board = replicate 52 0, moves = \<lparr>stack = [], undos = 0\<rparr>\<rparr>"

text \<open>
  The states a session can be in: after \<open>NewGame\<close> on the fresh value, and after any
  further \<open>NewGame\<close>, \<open>Interact\<close>, \<open>Undo\<close>, \<open>AutoMoveCard\<close> or \<open>clearSelected\<close> (game.go
  calls the last one directly). \<open>session d n l\<close> says that \<open>l\<close> is such a state, and
  keeps two facts of its past: \<open>d\<close> is the board that the last \<open>NewGame\<close> dealt, and \<open>n\<close>
  counts the undos performed since, an \<open>Undo\<close> being performed when it takes a
  snapshot off the history.
\<close>

inductive session :: "nat list \<Rightarrow> nat \<Rightarrow> logic \<Rightarrow> bool" where
  session_start: "NewGame logic0 seed = Some l \<Longrightarrow> session (board l) 0 l"
| session_NewGame: "session d n l \<Longrightarrow> NewGame l seed = Some l' \<Longrightarrow> session (board l') 0 l'"
| session_Interact: "session d n l \<Longrightarrow> session d n (snd (Interact l pick))"
| session_Undo:
    "session d n l \<Longrightarrow> Undo l = Some l' \<Longrightarrow>
     session d (if length (stack (moves l')) < length (stack (moves l)) then Suc n else n) l'"
| session_AutoMoveCard: "session d n l \<Longrightarrow> session d n (snd (AutoMoveCard l))"
| session_clearSelected: "session d n l \<Longrightarrow> session d n (clearSelected l)"

definition reachable :: "logic \<Rightarrow> bool" where
  "reachable l \<longleftrightarrow> (\<exists>d n. session d n l)"

text \<open>
  \<open>noMoveSince l\<close>: no move has been committed since the last \<open>NewGame\<close>. The calls in
  between returned without moving a card.
\<close>

inductive noMoveSince :: "logic \<Rightarrow> bool" where
  fresh_start: "NewGame logic0 seed = Some l \<Longrightarrow> noMoveSince l"
| fresh_NewGame: "reachable l \<Longrightarrow> NewGame l seed = Some l' \<Longrightarrow> noMoveSince l'"
| fresh_Interact: "noMoveSince l \<Longrightarrow> Interact l pick = (False, l') \<Longrightarrow> noMoveSince l'"
| fresh_Undo: "noMoveSince l \<Longrightarrow> Undo l = Some l' \<Longrightarrow> noMoveSince l'"
| fresh_AutoMoveCard: "noMoveSince l \<Longrightarrow> AutoMoveCard l = (False, l') \<Longrightarrow> noMoveSince l'"
| fresh_clearSelected: "noMoveSince l \<Longrightarrow> noMoveSince (clearSelected l)"

text \<open>\<open>Undo\<close> called \<open>n\<close> times in a row.\<close>

fun UndoTimes :: "nat \<Rightarrow> logic \<Rightarrow> logic option" where
  "UndoTimes 0 l = Some l"
| "UndoTimes (Suc n) l = (case Undo l of None \<Rightarrow> None | Some l' \<Rightarrow> UndoTimes n l')"

text \<open>
  \<open>idlePicks l picks\<close>: the state after the picks, when none of them moved a card
  (a pick that selects a card, or one that is refused).
\<close>

fun idlePicks :: "logic \<Rightarrow> nat list \<Rightarrow> logic option" where
  "idlePicks l [] = Some l"
| "idlePicks l (p # ps) =
     (case Interact l p of (True, l') \<Rightarrow> None | (False, l') \<Rightarrow> idlePicks l' ps)"

text \<open>
  The invariant of a session: the history is not empty, its top is the current board,
  its bottom is the dealt board, its undo counter is the number of undos performed,
  and every snapshot has 52 entries.
\<close>

definition session_inv :: "nat list \<Rightarrow> nat \<Rightarrow> logic \<Rightarrow> bool" where
  "session_inv d n l \<longleftrightarrow>
     stack (moves l) \<noteq> [] \<and> last (stack (moves l)) = board l \<and>
     hd (stack (moves l)) = d \<and> undos (moves l) = int n \<and>
     (\<forall>s \<in> set (stack (moves l)). length s = 52)"

section \<open>The specification's formulas\<close>

text \<open>
  The definitions of this section follow the words of the specification, not the code;
  the theorems compare them with the code.
\<close>

subsection \<open>Movable stack size\<close>

text \<open>
  \<open>F\<close> and \<open>E\<close>: the empty freecells (locations 0 to 3) and the empty cascades (bottom
  cells 8 to 15) are those that hold no card.
\<close>

definition spec_F :: "nat list \<Rightarrow> int" where
  "spec_F b = int (length (filter (\<lambda>loc. loc \<notin> set b) [0..<4]))"

definition spec_E :: "nat list \<Rightarrow> int" where
  "spec_E b = int (length (filter (\<lambda>loc. loc \<notin> set b) [8..<16]))"

definition spec_capacity :: "int \<Rightarrow> int \<Rightarrow> bool \<Rightarrow> int" where
  "spec_capacity F E targetIsEmptyCascade =
     (if E = 0 then F + 1
      else
        let E' = (if targetIsEmptyCascade then E - 1 else E)
        in if E' > 0 then 2 * (F + 1 + (E' - 1)) else F + 1)"

subsection \<open>Auto-promotion\<close>

definition suitOf :: "nat \<Rightarrow> nat" where
  "suitOf cid = Suit (deck ! cid)"

definition rankOf :: "nat \<Rightarrow> nat" where
  "rankOf cid = Rank (deck ! cid)"

text \<open>The card at a location, if any; the visible top card of the foundation of a suit.\<close>

definition occupant :: "nat list \<Rightarrow> nat \<Rightarrow> nat option" where
  "occupant b loc = find (\<lambda>cid. b ! cid = loc) [0..<52]"

definition foundationTop :: "nat list \<Rightarrow> nat \<Rightarrow> nat option" where
  "foundationTop b suit = occupant b (suit + 4)"

text \<open>
  The top card of a cascade column: a card in a cascade cell of that column with no
  card in the cell above it.
\<close>

definition cascadeTop :: "nat list \<Rightarrow> nat \<Rightarrow> nat option" where
  "cascadeTop b col =
     find (\<lambda>cid. 8 \<le> b ! cid \<and> b ! cid \<le> 167 \<and> b ! cid mod 8 = col \<and>
                 occupant b (b ! cid + 8) = None) [0..<52]"

text \<open>
  \<open>minRank\<close>: the minimum of the four foundation top ranks, or \<open>-1\<close> if a foundation is
  empty.
\<close>

definition spec_minRank :: "nat list \<Rightarrow> int" where
  "spec_minRank b =
     (let tops = map (foundationTop b) [0..<4] in
      if None \<in> set tops then - 1
      else Min (set (map (\<lambda>t. int (rankOf (the t))) tops)))"

text \<open>
  The scan order: the occupants of the four freecells, then the top cards of the eight
  cascades; an empty slot gives no candidate.
\<close>

definition spec_candidates :: "nat list \<Rightarrow> nat list" where
  "spec_candidates b =
     List.map_filter (occupant b) [0..<4] @ List.map_filter (cascadeTop b) [0..<8]"

text \<open>The correct next card for the foundation of its suit: the ace, or the rank after the top.\<close>

definition spec_nextOnFoundation :: "nat list \<Rightarrow> nat \<Rightarrow> bool" where
  "spec_nextOnFoundation b c =
     (case foundationTop b (suitOf c) of
        None \<Rightarrow> rankOf c = 0
      | Some t \<Rightarrow> rankOf c = rankOf t + 1)"

definition spec_eligible :: "nat list \<Rightarrow> nat \<Rightarrow> bool" where
  "spec_eligible b c \<longleftrightarrow>
     (int (rankOf c) = spec_minRank b + 1 \<or> int (rankOf c) = spec_minRank b + 2) \<and>
     spec_nextOnFoundation b c"

text \<open>
  Promoting \<open>c\<close>: the previous top of its foundation, if any, becomes hidden; \<open>c\<close> takes
  the foundation's slot; the new board is one more snapshot of the history; the
  selection is cleared if \<open>c\<close> was the selected card.
\<close>

definition spec_promoted :: "logic \<Rightarrow> nat \<Rightarrow> logic" where
  "spec_promoted l c =
     (let b = board l;
          buried = (case foundationTop b (suitOf c) of
                      None \<Rightarrow> b
                    | Some t \<Rightarrow> b[t := b ! t + 9999]);
          b' = buried[c := suitOf c + 4]
      in l\<lparr>selected := (if selected l = c then NO_CARD else selected l),
            board := b',
            moves := (moves l)\<lparr>stack := stack (moves l) @ [b']\<rparr>\<rparr>)"

definition spec_AutoMoveCard :: "logic \<Rightarrow> bool \<times> logic" where
  "spec_AutoMoveCard l =
     (case find (spec_eligible (board l)) (spec_candidates (board l)) of
        None \<Rightarrow> (False, l)
      | Some c \<Rightarrow> (True, spec_promoted l c))"

text \<open>
  \<open>toCard\<close>: the card value that \<open>getCard (cardAt b loc)\<close> and \<open>lastInCascade\<close> give
  for an optional card id (\<open>InvalidCard\<close> for none).
\<close>

definition toCard :: "nat option \<Rightarrow> Card" where
  "toCard t = (case t of None \<Rightarrow> InvalidCard | Some c \<Rightarrow> deck ! c)"

section \<open>A sample session: game number 3\<close>

text \<open>
  The deal of seed 3 leaves the ace of hearts (id 2) and the two of hearts (id 6) on top
  of their cascades. \<open>game3\<close> is the session after \<open>NewGame 3\<close>; \<open>game3a\<close> after the ace
  went to the empty heart foundation (pick 2, then pick 106); \<open>game3b\<close> after the two was
  placed on the ace (pick 6, then pick 2); \<open>game3u\<close> is \<open>game3a\<close> after \<open>Undo\<close>, and
  \<open>game3r\<close> is \<open>game3u\<close> after the ace went up again.
\<close>

definition deal3 :: "Card list" where
  "deal3 = map (\<lambda>i. deck ! i)
     [48, 5, 44, 26, 23, 30, 38, 13, 25, 42, 33, 43, 47, 31, 32, 45, 36, 46, 39, 17, 22, 51,
      24, 1, 14, 3, 41, 29, 0, 21, 9, 50, 20, 37, 7, 8, 34, 49, 27, 11, 35, 4, 10, 12, 2, 6,
      40, 18, 28, 15, 19, 16]"

definition board3 :: "nat list" where
  "board3 =
     [36, 31, 52, 33, 49, 9, 53, 42, 43, 38, 50, 47, 51, 15, 32, 57, 59, 27, 55, 58, 40, 37,
      28, 12, 30, 16, 11, 46, 56, 35, 13, 21, 22, 18, 44, 48, 24, 41, 14, 26, 54, 34, 17, 19,
      10, 23, 25, 20, 8, 45, 39, 29]"

definition game3 :: logic where
  "game3 = \<lparr>selected = NO_CARD, gameSeed = 3, deal = deal3, board = board3,
            moves = \<lparr>stack = [board3], undos = 0\<rparr>\<rparr>"

definition board3a :: "nat list" where
  "board3a = board3[2 := 6]"

definition game3a :: logic where
  "game3a = game3\<lparr>board := board3a, moves := \<lparr>stack = [board3, board3a], undos = 0\<rparr>\<rparr>"

definition board3b :: "nat list" where
  "board3b = board3a[2 := 10005, 6 := 6]"

definition game3b :: logic where
  "game3b = game3\<lparr>board := board3b,
                   moves := \<lparr>stack = [board3, board3a, board3b], undos = 0\<rparr>\<rparr>"

definition game3u :: logic where
  "game3u = game3\<lparr>moves := \<lparr>stack = [board3], undos = 1\<rparr>\<rparr>"

definition game3r :: logic where
  "game3r = game3\<lparr>board := board3a, moves := \<lparr>stack = [board3, board3a], undos = 1\<rparr>\<rparr>"

lemmas const_defs =
  BLK_def RED_def CLB_def DMD_def HRT_def SPD_def ACES_def AC_def KC_def KD_def KH_def
  KS_def FC_def FD_def FH_def FS_def HIDDEN_CARD_def NO_CARD_def EMPTY_PILE1_def
  EMPTY_PILE16_def MAX_BOARD_ID_def MAX_SEED_def RAND_MAX_32_def

section \<open>The shuffle is the reference algorithm\<close>

lemma and_mask31: "(x mod 2 ^ 64) AND (2147483647::nat) = x AND 2147483647"
proof -
  have m: "(2147483647::nat) = mask 31" by (simp add: mask_eq_exp_minus_1)
  have "take_bit 31 (take_bit 64 x) = take_bit 31 x" by simp
  then show ?thesis unfolding m by (simp add: take_bit_eq_mod flip: take_bit_eq_mask)
qed

lemma randClassic_lcg: "randClassic s = (lcg_yield (lcg_next s), lcg_next s)"
  by (simp only: randClassic_def lcg_next_def lcg_yield_def RAND_MAX_32_def and_mask31 Let_def)

lemma shuffle_body_Some:
  assumes "0 < sv_remainder v" "sv_dealt v + sv_remainder v = 52"
  shows "shuffle_body v =
           Some \<lparr>sv_rseed = lcg_next (sv_rseed v),
                 sv_deck = (sv_deck v)[lcg_yield (lcg_next (sv_rseed v)) mod sv_remainder v
                                        := sv_deck v ! (sv_remainder v - 1)],
                 sv_deal = (sv_deal v)[sv_dealt v :=
                              sv_deck v ! (lcg_yield (lcg_next (sv_rseed v)) mod sv_remainder v)],
                 sv_dealt = sv_dealt v + 1,
                 sv_remainder = sv_remainder v - 1\<rparr>"
proof -
  have "lcg_yield (lcg_next (sv_rseed v)) mod sv_remainder v < sv_remainder v"
    using assms(1) by simp
  moreover have "sv_remainder v \<le> 52" using assms by simp
  ultimately have j: "lcg_yield (lcg_next (sv_rseed v)) mod sv_remainder v < 52"
    by (rule less_le_trans)
  have "sv_remainder v - 1 < 52" "sv_dealt v < 52" using assms by auto
  with j show ?thesis
    using assms(1) by (simp add: shuffle_body_def randClassic_lcg Let_def)
qed

lemma ref_draws_subset:
  "n \<le> r \<Longrightarrow> r \<le> length w \<Longrightarrow> set (ref_draws n s w r) \<subseteq> set w"
proof (induction n arbitrary: s w r)
  case 0
  then show ?case by simp
next
  case (Suc n)
  let ?j = "lcg_yield (lcg_next s) mod r"
  let ?w = "w[?j := w ! (r - 1)]"
  from Suc.prems have r: "0 < r" by simp
  then have j: "?j < length w" using Suc.prems(2) by (meson less_le_trans mod_less_divisor)
  have last: "w ! (r - 1) \<in> set w" using r Suc.prems(2) by simp
  have "set (ref_draws n (lcg_next s) ?w (r - 1)) \<subseteq> set ?w"
    using Suc.prems by (intro Suc.IH) auto
  also have "set ?w \<subseteq> insert (w ! (r - 1)) (set w)" by (rule set_update_subset_insert)
  finally show ?case using j last by (auto simp: Let_def)
qed

text \<open>
  The loop of \<open>shuffle\<close> never panics, and writes into \<open>deal\<close>, from position \<open>dealt\<close> on,
  the ids that the reference algorithm emits.
\<close>

lemma shuffle_loop_ref:
  assumes "n \<le> sv_remainder v" "sv_dealt v + sv_remainder v = 52" "length (sv_deal v) = 52"
  shows "\<exists>v'. shuffle_loop n v = Some v' \<and>
              sv_deal v' = take (sv_dealt v) (sv_deal v)
                           @ ref_draws n (sv_rseed v) (sv_deck v) (sv_remainder v)
                           @ drop (sv_dealt v + n) (sv_deal v)"
  using assms
proof (induction n arbitrary: v)
  case 0
  then show ?case by simp
next
  case (Suc n)
  let ?j = "lcg_yield (lcg_next (sv_rseed v)) mod sv_remainder v"
  let ?v = "\<lparr>sv_rseed = lcg_next (sv_rseed v),
             sv_deck = (sv_deck v)[?j := sv_deck v ! (sv_remainder v - 1)],
             sv_deal = (sv_deal v)[sv_dealt v := sv_deck v ! ?j],
             sv_dealt = sv_dealt v + 1,
             sv_remainder = sv_remainder v - 1\<rparr>"
  from Suc.prems have pos: "0 < sv_remainder v" by simp
  have body: "shuffle_body v = Some ?v" using pos Suc.prems(2) by (rule shuffle_body_Some)
  have d: "sv_dealt v < length (sv_deal v)" using Suc.prems pos by simp
  have "n \<le> sv_remainder ?v" "sv_dealt ?v + sv_remainder ?v = 52" "length (sv_deal ?v) = 52"
    using Suc.prems by simp_all
  from Suc.IH [OF this] obtain v' where
    loop: "shuffle_loop n ?v = Some v'" and
    deal: "sv_deal v' = take (sv_dealt ?v) (sv_deal ?v)
                        @ ref_draws n (sv_rseed ?v) (sv_deck ?v) (sv_remainder ?v)
                        @ drop (sv_dealt ?v + n) (sv_deal ?v)"
    by blast
  have t: "take (sv_dealt ?v) (sv_deal ?v) = take (sv_dealt v) (sv_deal v) @ [sv_deck v ! ?j]"
    using d by (simp add: take_Suc_conv_app_nth)
  have "shuffle_loop (Suc n) v = Some v'" using body loop by simp
  moreover have "sv_deal v' = take (sv_dealt v) (sv_deal v)
                           @ ref_draws (Suc n) (sv_rseed v) (sv_deck v) (sv_remainder v)
                           @ drop (sv_dealt v + Suc n) (sv_deal v)"
    unfolding deal t by (simp add: Let_def)
  ultimately show ?case by blast
qed

lemma shuffle_ref_draws:
  "shuffle seed ordered = Some (map (\<lambda>i. ordered ! i) (ref_draws 52 seed [0..<52] 52))"
proof -
  let ?v0 = "\<lparr>sv_rseed = srand seed, sv_deck = [0..<52], sv_deal = replicate 52 NO_CARD,
              sv_dealt = 0, sv_remainder = 52\<rparr>"
  obtain v' where loop: "shuffle_loop 52 ?v0 = Some v'"
    and deal: "sv_deal v' = ref_draws 52 seed [0..<52] 52"
    using shuffle_loop_ref [of 52 ?v0] by (auto simp: srand_def)
  have "set (sv_deal v') \<subseteq> set [0..<52]"
    unfolding deal by (rule ref_draws_subset) simp_all
  then have "list_all (\<lambda>d. d < 52) (sv_deal v')" by (auto simp: list_all_iff)
  then show ?thesis using loop deal by (simp add: shuffle_def)
qed

lemma ref_draws_numeral:
  "ref_draws (numeral k) state w remainder =
     (let state' = lcg_next state;
          j = lcg_yield state' mod remainder
      in w ! j # ref_draws (pred_numeral k) state' (w[j := w ! (remainder - 1)]) (remainder - 1))"
  by (simp add: numeral_eq_Suc)

lemma ref_draws_seed1:
  "ref_draws 52 1 [0..<52] 52 =
     [41, 5, 34, 40, 17, 26, 24, 18, 49, 48, 35, 19, 1, 44, 50, 10, 7, 51, 33, 45, 43, 3, 2, 8,
      12, 16, 39, 46, 14, 0, 13, 27, 11, 37, 15, 38, 30, 4, 42, 25, 21, 31, 29, 47, 20, 9, 28,
      36, 23, 32, 6, 22]"
  by (simp add: ref_draws_numeral lcg_next_def lcg_yield_def Let_def cong: let_weak_cong)

text \<open>
  Claim C1. For every seed from 0 to 999999, \<open>shuffle\<close> returns (without a panic) the deal
  of the reference algorithm: the 31-bit generator seeded with the seed, 52 draws
  \<open>j = draw mod remainder\<close> from the working array of the 52 ids, each emitting entry \<open>j\<close>
  and overwriting it with the last remaining entry, the emitted ids indexing the ordered
  deck.
\<close>

theorem shuffle_is_reference:
  assumes "seed \<le> MAX_SEED"
  shows "shuffle seed ordered = Some (ref_shuffle seed ordered)"
proof -
  have "shuffle seed ordered = Some (map (\<lambda>i. ordered ! i) (ref_draws 52 seed [0..<52] 52))"
    by (rule shuffle_ref_draws)
  also have "map (\<lambda>i. ordered ! i) (ref_draws 52 seed [0..<52] 52) = ref_shuffle seed ordered"
    by (simp add: ref_shuffle_def)
  finally show ?thesis .
qed

text \<open>Seed 1 deals the published game number 1.\<close>

theorem shuffle_is_reference_witness:
  "(1::nat) \<le> MAX_SEED \<and>
   map_option (map Sym) (shuffle 1 deck) =
     Some [''JD'', ''2D'', ''9H'', ''JC'', ''5D'', ''7H'', ''7C'', ''5H'',
           ''KD'', ''KC'', ''9S'', ''5S'', ''AD'', ''QC'', ''KH'', ''3H'',
           ''2S'', ''KS'', ''9D'', ''QD'', ''JS'', ''AS'', ''AH'', ''3C'',
           ''4C'', ''5C'', ''TS'', ''QH'', ''4H'', ''AC'', ''4D'', ''7S'',
           ''3S'', ''TD'', ''4S'', ''TH'', ''8H'', ''2C'', ''JH'', ''7D'',
           ''6D'', ''8S'', ''8D'', ''QS'', ''6C'', ''3D'', ''8C'', ''TC'',
           ''6S'', ''9C'', ''2H'', ''6H'']"
proof -
  have h: "(1::nat) \<le> MAX_SEED" by (simp add: MAX_SEED_def)
  have "map Sym (ref_shuffle 1 deck) =
     [''JD'', ''2D'', ''9H'', ''JC'', ''5D'', ''7H'', ''7C'', ''5H'',
      ''KD'', ''KC'', ''9S'', ''5S'', ''AD'', ''QC'', ''KH'', ''3H'',
      ''2S'', ''KS'', ''9D'', ''QD'', ''JS'', ''AS'', ''AH'', ''3C'',
      ''4C'', ''5C'', ''TS'', ''QH'', ''4H'', ''AC'', ''4D'', ''7S'',
      ''3S'', ''TD'', ''4S'', ''TH'', ''8H'', ''2C'', ''JH'', ''7D'',
      ''6D'', ''8S'', ''8D'', ''QS'', ''6C'', ''3D'', ''8C'', ''TC'',
      ''6S'', ''9C'', ''2H'', ''6H'']"
    unfolding ref_shuffle_def ref_draws_seed1 by (simp add: deck_def mkCard_def)
  with h shuffle_is_reference [OF h, of deck] show ?thesis by simp
qed

section \<open>Facts about the deck\<close>

lemma length_deck: "length deck = 52"
  by (simp add: deck_def)

lemma map_ID_deck: "map ID deck = [0..<52]"
  by (simp add: deck_def mkCard_def upt_rec)

lemma ID_deck: "cid < 52 \<Longrightarrow> ID (deck ! cid) = cid"
proof -
  assume c: "cid < 52"
  then have "ID (deck ! cid) = map ID deck ! cid" by (simp add: length_deck)
  also have "\<dots> = cid" using c by (simp add: map_ID_deck)
  finally show ?thesis .
qed

lemma isCard_iff: "isCard c \<longleftrightarrow> c < 52"
  by (auto simp: isCard_def AC_def KS_def)

lemma ID_getCard: "isCard c \<Longrightarrow> ID (getCard c) = c"
  by (simp add: getCard_def isCard_iff ID_deck)

lemma ID_getCard_no: "\<not> isCard c \<Longrightarrow> ID (getCard c) = NO_CARD"
  by (simp add: getCard_def InvalidCard_def mkCard_def)

section \<open>History\<close>

lemma stack_moves_record [simp]: "stack (moves_record mv b) = stack mv @ [b]"
  by (simp add: moves_record_def)

lemma undos_moves_record [simp]: "undos (moves_record mv b) = undos mv"
  by (simp add: moves_record_def)

lemma moves_undo_nonempty:
  "stack mv \<noteq> [] \<Longrightarrow>
   moves_undo mv =
     (if 1 < length (stack mv)
      then Some (last (butlast (stack mv)),
                 mv\<lparr>stack := butlast (stack mv), undos := undos mv + 1\<rparr>)
      else Some (last (stack mv), mv))"
  by (cases "stack mv" rule: rev_cases) (auto simp: moves_undo_def Let_def)

section \<open>What a placement changes\<close>

lemma commit_simps [simp]:
  "board (commit l) = board l" "selected (commit l) = selected l"
  "moves (commit l) = moves_record (moves l) (board l)"
  "gameSeed (commit l) = gameSeed l" "deal (commit l) = deal l"
  by (simp_all add: commit_def)

lemma setBoard_simps [simp]:
  "board (setBoard l c x) = (board l)[c := x]" "selected (setBoard l c x) = selected l"
  "moves (setBoard l c x) = moves l"
  "gameSeed (setBoard l c x) = gameSeed l" "deal (setBoard l c x) = deal l"
  by (simp_all add: setBoard_def)

lemma clearSelected_simps [simp]:
  "board (clearSelected l) = board l" "selected (clearSelected l) = NO_CARD"
  "moves (clearSelected l) = moves l"
  "gameSeed (clearSelected l) = gameSeed l" "deal (clearSelected l) = deal l"
  by (simp_all add: clearSelected_def)

lemma moveRest_frame:
  "length (board (moveRest l prev cs)) = length (board l) \<and>
   selected (moveRest l prev cs) = selected l \<and> moves (moveRest l prev cs) = moves l \<and>
   gameSeed (moveRest l prev cs) = gameSeed l \<and> deal (moveRest l prev cs) = deal l"
  by (induction cs arbitrary: l prev) simp_all

lemma moveSequence_frame:
  "length (board (moveSequence l seq x)) = length (board l) \<and>
   selected (moveSequence l seq x) = selected l \<and> moves (moveSequence l seq x) = moves l \<and>
   gameSeed (moveSequence l seq x) = gameSeed l \<and> deal (moveSequence l seq x) = deal l"
  by (simp add: moveSequence_def moveRest_frame)

text \<open>
  A placement that returns false changes nothing; one that returns true changes the
  board, keeps its length, and appends the new board to the history.
\<close>

lemma placeSelected_frame:
  assumes "placeSelected l s seq pick = (r, l')"
  shows "if r then length (board l') = length (board l) \<and> selected l' = selected l \<and>
                   gameSeed l' = gameSeed l \<and> deal l' = deal l \<and>
                   moves l' = moves_record (moves l) (board l')
         else l' = l"
  using assms
  by (auto simp: placeSelected_def Let_def moveSequence_frame split: if_splits)

lemma Interact_frame:
  assumes "Interact l pick = (r, l')"
  shows "length (board l') = length (board l) \<and> gameSeed l' = gameSeed l \<and> deal l' = deal l \<and>
         (if r then selected l' = NO_CARD \<and> isSelectionActive l \<and>
                    moves l' = moves_record (moves l) (board l')
          else board l' = board l \<and> moves l' = moves l)"
proof (cases "\<not> canInteract l pick \<or> \<not> isSelectionActive l")
  case True
  with assms show ?thesis
    by (auto simp: Interact_def Let_def split: if_splits)
next
  case False
  with assms have p: "placeSelected (clearSelected l) (getCard (selected l)) (GetSelected l) pick
                        = (r, l')"
    by (simp add: Interact_def Let_def)
  from placeSelected_frame [OF p] False show ?thesis
    by (cases r) auto
qed

section \<open>What an automatic move changes\<close>

lemma promote_frame:
  "length (board (promote l f c x)) = length (board l) \<and>
   gameSeed (promote l f c x) = gameSeed l \<and> deal (promote l f c x) = deal l \<and>
   moves (promote l f c x) = moves_record (moves l) (board (promote l f c x))"
  by (simp add: promote_def Let_def)

lemma scanCandidates_frame:
  assumes "scanCandidates l fc fd fh fs m cs = (r, l')"
  shows "length (board l') = length (board l) \<and> gameSeed l' = gameSeed l \<and> deal l' = deal l \<and>
         (if r then moves l' = moves_record (moves l) (board l') else l' = l)"
  using assms
proof (induction cs)
  case Nil
  then show ?case by auto
next
  case (Cons c cs)
  show ?case
  proof (cases "scanCandidates l fc fd fh fs m (c # cs) = scanCandidates l fc fd fh fs m cs")
    case True
    with Cons show ?thesis by simp
  next
    case False
    then obtain f where "scanCandidates l fc fd fh fs m (c # cs) = (True, promote l f c (Suit c + 4))"
      by (auto simp: Let_def split: if_splits)
    with Cons.prems show ?thesis by (auto simp: promote_frame)
  qed
qed

lemma AutoMoveCard_frame:
  assumes "AutoMoveCard l = (r, l')"
  shows "length (board l') = length (board l) \<and> gameSeed l' = gameSeed l \<and> deal l' = deal l \<and>
         (if r then moves l' = moves_record (moves l) (board l') \<and> 2 \<le> moves_count (moves l)
          else l' = l)"
proof (cases "moves_count (moves l) < 2")
  case True
  with assms show ?thesis by (auto simp: AutoMoveCard_def)
next
  case False
  with assms obtain fc fd fh fs m cs where "scanCandidates l fc fd fh fs m cs = (r, l')"
    unfolding AutoMoveCard_def Let_def by (auto simp del: scanCandidates.simps)
  from scanCandidates_frame [OF this] False show ?thesis by auto
qed

section \<open>NewGame and Undo\<close>

lemma length_dealBoard: "length (dealBoard d b) = length b"
proof -
  have "length (fold (\<lambda>cid b'. b'[ID (d ! cid) := cid + 8]) cs b) = length b" for cs
    by (induction cs arbitrary: b) simp_all
  then show ?thesis by (simp add: dealBoard_def)
qed

lemma shuffle_total: "\<exists>d. shuffle seed ordered = Some d"
  by (simp add: shuffle_ref_draws)

lemma NewGame_Some:
  "\<exists>l'. NewGame l seed = Some l' \<and> selected l' = NO_CARD \<and> gameSeed l' = seed \<and>
        length (board l') = length (board l) \<and>
        moves l' = \<lparr>stack = [board l'], undos = 0\<rparr>"
proof -
  obtain d where "shuffle seed deck = Some d" using shuffle_total by blast
  then show ?thesis
    by (simp add: NewGame_def Let_def moves_reset_def moves_record_def length_dealBoard commit_def
        clearSelected_def)
qed

lemma Undo_nonempty:
  "stack (moves l) \<noteq> [] \<Longrightarrow>
   Undo l =
     (if 1 < length (stack (moves l))
      then Some (l\<lparr>selected := NO_CARD, board := last (butlast (stack (moves l))),
                  moves := (moves l)\<lparr>stack := butlast (stack (moves l)),
                                     undos := undos (moves l) + 1\<rparr>\<rparr>)
      else Some (l\<lparr>selected := NO_CARD, board := last (stack (moves l))\<rparr>))"
  by (simp add: Undo_def Let_def moves_undo_nonempty clearSelected_def)

section \<open>Invariants of a session\<close>

lemma session_inv_length: "session_inv d n l \<Longrightarrow> length (board l) = 52"
  unfolding session_inv_def by (metis last_in_set)

lemma session_inv_Undo:
  assumes "session_inv d n l"
  shows "\<exists>l'. Undo l = Some l' \<and>
          session_inv d (if length (stack (moves l')) < length (stack (moves l))
                         then Suc n else n) l'"
proof -
  from assms obtain ys x where st: "stack (moves l) = ys @ [x]"
    unfolding session_inv_def by (metis rev_exhaust)
  show ?thesis
  proof (cases "ys = []")
    case True
    with st assms show ?thesis
      by (auto simp: Undo_nonempty session_inv_def)
  next
    case False
    then have "last ys \<in> set ys" by simp
    with False st assms show ?thesis
      by (auto simp: Undo_nonempty session_inv_def)
  qed
qed

lemma session_invariant: "session d n l \<Longrightarrow> session_inv d n l"
proof (induction rule: session.induct)
  case (session_start seed l)
  then show ?case using NewGame_Some [of logic0 seed]
    by (auto simp: session_inv_def logic0_def)
next
  case (session_NewGame d n l seed l')
  then show ?case using NewGame_Some [of l seed] session_inv_length [of d n l]
    by (auto simp: session_inv_def)
next
  case (session_Interact d n l pick)
  obtain r l' where i: "Interact l pick = (r, l')" by (cases "Interact l pick")
  from Interact_frame [OF i] session_Interact.IH session_inv_length [of d n l] show ?case
    by (cases r) (auto simp: i session_inv_def)
next
  case (session_Undo d n l l')
  then show ?case using session_inv_Undo [of d n l] by auto
next
  case (session_AutoMoveCard d n l)
  obtain r l' where a: "AutoMoveCard l = (r, l')" by (cases "AutoMoveCard l")
  from AutoMoveCard_frame [OF a] session_AutoMoveCard.IH session_inv_length [of d n l]
  show ?case
    by (cases r) (auto simp: a session_inv_def)
next
  case (session_clearSelected d n l)
  then show ?case by (simp add: session_inv_def)
qed

section \<open>Scans of the board\<close>

lemma ids_upt: "[AC..<KS + 1] = [0..<52]"
  by (simp add: AC_def KS_def)

lemma find_board_None:
  "length b = 52 \<Longrightarrow> find (\<lambda>cid. b ! cid = p) [0..<52] = None \<longleftrightarrow> p \<notin> set b"
  by (auto simp: find_None_iff in_set_conv_nth)

lemma cardAt_NO_CARD: "length b = 52 \<Longrightarrow> cardAt b p = NO_CARD \<longleftrightarrow> p \<notin> set b"
proof -
  assume len: "length b = 52"
  show ?thesis
  proof (cases "find (\<lambda>cid. b ! cid = p) [0..<52]")
    case None
    then show ?thesis using find_board_None [OF len, of p]
      unfolding cardAt_def ids_upt by simp
  next
    case (Some c)
    then have "c < 52" by (auto simp: find_Some_iff)
    then have "c \<noteq> NO_CARD" by (simp add: NO_CARD_def)
    with Some show ?thesis using find_board_None [OF len, of p]
      unfolding cardAt_def ids_upt by simp
  qed
qed

lemma emptyPile_iff: "length b = 52 \<Longrightarrow> emptyPile b p \<longleftrightarrow> p \<le> 15 \<and> p \<notin> set b"
  unfolding emptyPile_def ids_upt by (simp add: find_board_None)

lemma countEmptyCells_filter:
  "countEmptyCells b piles = int (length (filter (emptyPile b) piles))"
proof -
  have "fold (\<lambda>pileID empty. if emptyPile b pileID then empty + 1 else empty) piles k
          = k + int (length (filter (emptyPile b) piles))" for k :: int
    by (induction piles arbitrary: k) simp_all
  then show ?thesis by (simp add: countEmptyCells_def)
qed

lemma emptyFreeCells_nonneg: "0 \<le> emptyFreeCells b"
  by (simp add: emptyFreeCells_def countEmptyCells_filter)

lemma emptyCascades_nonneg: "0 \<le> emptyCascades b"
  by (simp add: emptyCascades_def countEmptyCells_filter)

lemma movableStackSize_pos: "1 \<le> movableStackSize b u"
  using emptyFreeCells_nonneg [of b] emptyCascades_nonneg [of b]
  by (auto simp: movableStackSize_def Let_def)

section \<open>Picking the last card of a cascade\<close>

lemma getSequence_last:
  assumes "isCascade (b ! c)" and "cardAt b (b ! c + 8) = NO_CARD"
  shows "getSequence b c = [c]"
proof -
  have "getSequence_loop b c NO_CARD [c] = [c]" by (simp add: getSequence_loop.simps)
  with assms movableStackSize_pos [of b "\<not> canMoveToCascade b c"] show ?thesis
    by (simp add: getSequence_def Let_def)
qed

lemma canSelectCard_last:
  assumes "isCard c" and "isCascade (b ! c)" and "cardAt b (b ! c + 8) = NO_CARD"
    and "0 < emptyFreeCells b"
  shows "canSelectCard b c"
proof -
  have "\<not> isFoundation (b ! c)" using assms(2) by (simp add: isCascade_def isFoundation_def)
  with assms show ?thesis
    by (simp add: canSelectCard_def Let_def getSequence_last)
qed

lemma GetSelected_last:
  assumes "isCard (selected l)" and "isCascade (board l ! selected l)"
    and "cardAt (board l) (board l ! selected l + 8) = NO_CARD"
  shows "GetSelected l = [selected l]"
  using assms by (simp add: GetSelected_def isSelectionActive_def GetSelected_loop.simps)

lemma Interact_select:
  assumes "\<not> isSelectionActive l" and "canSelectCard (board l) c"
  shows "Interact l c = (False, l\<lparr>selected := c\<rparr>)"
proof -
  from assms(2) have "isCard c" by (auto simp: canSelectCard_def split: if_splits)
  with assms show ?thesis by (simp add: Interact_def canInteract_def)
qed

section \<open>The movable stack size\<close>

lemma upt4: "[0..<4] = [0, 1, 2, 3]"
  by (simp add: upt_rec)

lemma upt8_16: "[8..<16] = [8, 9, 10, 11, 12, 13, 14, 15]"
  by (simp add: upt_rec)

lemma emptyFreeCells_spec:
  assumes "length b = 52"
  shows "emptyFreeCells b = spec_F b"
proof -
  have "filter (emptyPile b) [0..<4] = filter (\<lambda>loc. loc \<notin> set b) [0..<4]"
    by (rule filter_cong) (auto simp: emptyPile_iff [OF assms])
  then show ?thesis
    unfolding emptyFreeCells_def spec_F_def countEmptyCells_filter upt4 [symmetric] by simp
qed

lemma emptyCascades_spec:
  assumes "length b = 52"
  shows "emptyCascades b = spec_E b"
proof -
  have "filter (emptyPile b) [8..<16] = filter (\<lambda>loc. loc \<notin> set b) [8..<16]"
    by (rule filter_cong) (auto simp: emptyPile_iff [OF assms])
  then show ?thesis
    unfolding emptyCascades_def spec_E_def countEmptyCells_filter upt8_16 [symmetric] by simp
qed

text \<open>
  Claim C2. On every board, \<open>movableStackSize\<close> is the formula of the specification: with
  \<open>F\<close> the number of empty freecells and \<open>E\<close> the number of empty cascades, \<open>F + 1\<close> if
  \<open>E = 0\<close>; otherwise, with \<open>E' = E - 1\<close> if the target is an empty cascade and
  \<open>E' = E\<close> if not, \<open>2 * (F + 1 + (E' - 1))\<close> if \<open>E' > 0\<close> and \<open>F + 1\<close> if not.
\<close>

theorem movableStackSize_formula:
  assumes "length b = 52"
  shows "movableStackSize b targetIsEmptyCascade
           = spec_capacity (spec_F b) (spec_E b) targetIsEmptyCascade"
proof -
  have "0 \<le> spec_E b" by (simp add: spec_E_def)
  then show ?thesis
    by (auto simp: movableStackSize_def spec_capacity_def Let_def
        emptyFreeCells_spec [OF assms] emptyCascades_spec [OF assms])
qed

section \<open>AutoMoveCard and its specification\<close>

lemma occupant_Some: "occupant b p = Some c \<Longrightarrow> c < 52 \<and> b ! c = p"
  by (auto simp: occupant_def find_Some_iff)

lemma cardAt_occupant: "cardAt b p = (case occupant b p of None \<Rightarrow> NO_CARD | Some c \<Rightarrow> c)"
  unfolding cardAt_def ids_upt occupant_def ..

lemma cardAt_NO_CARD_occupant: "cardAt b p = NO_CARD \<longleftrightarrow> occupant b p = None"
proof (cases "occupant b p")
  case None
  then show ?thesis by (simp add: cardAt_occupant)
next
  case (Some c)
  with occupant_Some [OF Some] show ?thesis by (simp add: cardAt_occupant NO_CARD_def)
qed

lemma cardAt_location: "cardAt b p \<noteq> NO_CARD \<Longrightarrow> b ! cardAt b p = p"
  by (cases "occupant b p") (auto simp: cardAt_occupant dest: occupant_Some)

lemma toCard_simps [simp]: "toCard None = InvalidCard" "toCard (Some c) = deck ! c"
  by (simp_all add: toCard_def)

lemma getCard_cardAt: "getCard (cardAt b p) = toCard (occupant b p)"
proof (cases "occupant b p")
  case None
  then show ?thesis by (simp add: cardAt_occupant getCard_def isCard_iff NO_CARD_def)
next
  case (Some c)
  with occupant_Some [OF Some] show ?thesis by (simp add: cardAt_occupant getCard_def isCard_iff)
qed

lemma cascadeTop_Some: "cascadeTop b k = Some c \<Longrightarrow> c < 52"
  by (auto simp: cascadeTop_def find_Some_iff)

lemma lastInCascade_cascadeTop: "lastInCascade b k = toCard (cascadeTop b k)"
proof -
  have "(\<lambda>cid. isLastInCascade b cid \<and> k = b ! cid mod 8)
          = (\<lambda>cid. 8 \<le> b ! cid \<and> b ! cid \<le> 167 \<and> b ! cid mod 8 = k \<and>
                    occupant b (b ! cid + 8) = None)"
    by (auto simp: isLastInCascade_def Let_def MAX_BOARD_ID_def cardAt_NO_CARD_occupant)
  then show ?thesis unfolding lastInCascade_def ids_upt cascadeTop_def by (simp add: toCard_def)
qed

lemma ID_toCard: "t = Some c \<Longrightarrow> c < 52 \<Longrightarrow> ID (toCard t) = c"
  by (simp add: ID_deck)

lemma ID_toCard_NO_CARD:
  "(\<And>c. t = Some c \<Longrightarrow> c < 52) \<Longrightarrow> ID (toCard t) = NO_CARD \<longleftrightarrow> t = None"
  by (cases t) (auto simp: InvalidCard_def mkCard_def ID_deck NO_CARD_def)

lemma map_Suit_deck: "map Suit deck = map (\<lambda>i. i mod 4) [0..<52]"
  by (simp add: deck_def mkCard_def upt_rec)

lemma Suit_deck: "c < 52 \<Longrightarrow> Suit (deck ! c) < 4"
proof -
  assume c: "c < 52"
  then have "Suit (deck ! c) = map Suit deck ! c" by (simp add: length_deck)
  also have "\<dots> = c mod 4" using c by (simp add: map_Suit_deck)
  finally show ?thesis by simp
qed

section \<open>The selection after a promotion\<close>

lemma GetSelected_loop_keeps: "set v \<subseteq> set (GetSelected_loop b cur nxt v)"
proof (induction b cur nxt v rule: GetSelected_loop.induct)
  case (1 b cardID nextCardID v)
  show ?case
  proof (cases "nextCardID \<noteq> NO_CARD \<and> nextInSequence (getCard cardID) (getCard nextCardID)
                 \<and> length v < 10")
    case True
    with 1 show ?thesis by (subst GetSelected_loop.simps) auto
  next
    case False
    then show ?thesis by (subst GetSelected_loop.simps) auto
  qed
qed

lemma cardAt_above: "cardAt b (p + 8) = NO_CARD \<or> 8 \<le> b ! cardAt b (p + 8)"
  by (cases "cardAt b (p + 8) = NO_CARD") (simp_all add: cardAt_location)

lemma GetSelected_loop_cascade:
  assumes "nxt = NO_CARD \<or> 8 \<le> b ! nxt" and "x \<in> set (GetSelected_loop b cur nxt v)"
  shows "x \<in> set v \<or> 8 \<le> b ! x"
  using assms
proof (induction b cur nxt v rule: GetSelected_loop.induct)
  case (1 b cardID nextCardID v)
  show ?case
  proof (cases "nextCardID \<noteq> NO_CARD \<and> nextInSequence (getCard cardID) (getCard nextCardID)
                 \<and> length v < 10")
    case True
    let ?n = "cardAt b (b ! nextCardID + 8)"
    have nx: "?n = NO_CARD \<or> 8 \<le> b ! ?n" by (rule cardAt_above)
    from True "1.prems"(2)
    have "x \<in> set (GetSelected_loop b nextCardID ?n (v @ [nextCardID]))"
      by (subst (asm) GetSelected_loop.simps) simp
    from "1.IH" [OF True nx this] True "1.prems"(1) show ?thesis by auto
  next
    case False
    with "1.prems"(2) show ?thesis by (subst (asm) GetSelected_loop.simps) auto
  qed
qed

lemma isSelected_foundation:
  assumes "c < 52" and "board l ! c < 8"
  shows "isSelected l c \<longleftrightarrow> selected l = c"
proof
  assume "isSelected l c"
  then have mem: "c \<in> set (GetSelected l)" by (simp add: isSelected_def list_ex_iff)
  show "selected l = c"
  proof (rule ccontr)
    assume ne: "selected l \<noteq> c"
    let ?p = "board l ! selected l"
    from mem ne have "c \<in> set (GetSelected_loop (board l) (selected l)
                                 (cardAt (board l) (?p + 8)) [selected l])"
      by (auto simp: GetSelected_def Let_def split: if_splits)
    moreover have "cardAt (board l) (?p + 8) = NO_CARD
                   \<or> 8 \<le> board l ! cardAt (board l) (?p + 8)"
      by (rule cardAt_above)
    ultimately have "c \<in> set [selected l] \<or> 8 \<le> board l ! c"
      by (rule GetSelected_loop_cascade [rotated])
    with ne assms(2) show False by simp
  qed
next
  assume s: "selected l = c"
  then have "isSelectionActive l" using assms(1) by (simp add: isSelectionActive_def isCard_iff)
  then have "c \<in> set (GetSelected l)"
    using s GetSelected_loop_keeps [of "[c]" "board l" c] by (auto simp: GetSelected_def Let_def)
  then show "isSelected l c" by (simp add: isSelected_def list_ex_iff)
qed

section \<open>Promotion\<close>

lemma promote_spec:
  assumes "length (board l) = 52" and "c < 52"
    and "\<And>t. foundationTop (board l) (suitOf c) = Some t \<Longrightarrow> t < 52"
  shows "promote l (toCard (foundationTop (board l) (suitOf c))) (deck ! c) (suitOf c + 4)
           = spec_promoted l c"
proof -
  have suit: "suitOf c + 4 < 8" using Suit_deck [OF assms(2)] by (simp add: suitOf_def)
  show ?thesis
  proof (cases "foundationTop (board l) (suitOf c)")
    case None
    let ?l2 = "commit (setBoard l c (suitOf c + 4))"
    have "board ?l2 ! c < 8" using suit assms(1,2) by simp
    from isSelected_foundation [OF assms(2) this] None assms(2) show ?thesis
      by (simp add: promote_def spec_promoted_def Let_def InvalidCard_def mkCard_def ID_deck
          commit_def setBoard_def clearSelected_def moves_record_def)
  next
    case (Some t)
    then have t: "t < 52" by (rule assms(3))
    let ?l2 = "commit (setBoard (setBoard l t (board l ! t + HIDDEN_CARD)) c (suitOf c + 4))"
    have "board ?l2 ! c < 8" using suit assms(1,2) by simp
    from isSelected_foundation [OF assms(2) this] Some assms(2) t show ?thesis
      by (simp add: promote_def spec_promoted_def Let_def ID_deck NO_CARD_def HIDDEN_CARD_def
          commit_def setBoard_def clearSelected_def moves_record_def)
  qed
qed

lemma map_filter_id_map: "List.map_filter (\<lambda>x. x) (map f xs) = List.map_filter f xs"
  by (simp add: List.map_filter_def filter_map comp_def)

lemma map_filter_append: "List.map_filter f (xs @ ys) = List.map_filter f xs @ List.map_filter f ys"
  by (simp add: List.map_filter_def)

lemma set_map_filter_id: "c \<in> set (List.map_filter (\<lambda>x. x) os) \<longleftrightarrow> Some c \<in> set os"
  by (induction os) (auto simp: List.map_filter_simps split: option.splits)

text \<open>The loop over the candidates finds the first one that passes both tests.\<close>

lemma scanCandidates_find:
  assumes "\<And>c. Some c \<in> set os \<Longrightarrow> c < 52"
    and "fsel CLB = fc" and "fsel DMD = fd" and "fsel HRT = fh" and "fsel SPD = fs"
  shows "scanCandidates l fc fd fh fs m (map toCard os) =
     (case find (\<lambda>c. (int (rankOf c) = m + 1 \<or> int (rankOf c) = m + 2) \<and>
                     isNextInFoundation (suitOf c) (fsel (suitOf c)) (deck ! c))
                (List.map_filter (\<lambda>x. x) os) of
        None \<Rightarrow> (False, l)
      | Some c \<Rightarrow> (True, promote l (fsel (suitOf c)) (deck ! c) (suitOf c + 4)))"
    (is "_ = ?R os")
  using assms(1)
proof (induction os)
  case Nil
  then show ?case by (simp add: List.map_filter_simps)
next
  case (Cons o1 os)
  then have IH: "scanCandidates l fc fd fh fs m (map toCard os) = ?R os" by simp
  show ?case
  proof (cases o1)
    case None
    then show ?thesis
      using IH by (simp add: List.map_filter_simps InvalidCard_def mkCard_def)
  next
    case (Some c)
    with Cons.prems have c: "c < 52" by simp
    then have id: "ID (deck ! c) \<noteq> NO_CARD" by (simp add: ID_deck NO_CARD_def)
    have mf: "List.map_filter (\<lambda>x. x) (o1 # os) = c # List.map_filter (\<lambda>x. x) os"
      using Some by (simp add: List.map_filter_simps)
    from Suit_deck [OF c] consider "Suit (deck ! c) = CLB" | "Suit (deck ! c) = DMD"
      | "Suit (deck ! c) = HRT" | "Suit (deck ! c) = SPD"
      unfolding CLB_def DMD_def HRT_def SPD_def by arith
    then show ?thesis
    proof cases
      case 1
      then show ?thesis unfolding mf using IH id Some assms(2)
        by (simp add: Let_def suitOf_def rankOf_def)
    next
      case 2
      then show ?thesis unfolding mf using IH id Some assms(3)
        by (simp add: Let_def suitOf_def rankOf_def CLB_def DMD_def)
    next
      case 3
      then show ?thesis unfolding mf using IH id Some assms(4)
        by (simp add: Let_def suitOf_def rankOf_def CLB_def DMD_def HRT_def)
    next
      case 4
      then show ?thesis unfolding mf using IH id Some assms(5)
        by (simp add: Let_def suitOf_def rankOf_def CLB_def DMD_def HRT_def SPD_def)
    qed
  qed
qed

lemma foundationTop_Some: "foundationTop b s = Some t \<Longrightarrow> t < 52"
  unfolding foundationTop_def by (drule occupant_Some) simp

lemma isNextInFoundation_spec:
  assumes "c < 52"
  shows "isNextInFoundation (suitOf c) (toCard (foundationTop b (suitOf c))) (deck ! c)
           \<longleftrightarrow> spec_nextOnFoundation b c"
proof -
  have suit: "\<not> suitOf c > SPD" using Suit_deck [OF assms] by (simp add: suitOf_def SPD_def)
  show ?thesis
  proof (cases "foundationTop b (suitOf c)")
    case None
    with suit show ?thesis
      by (simp add: isNextInFoundation_def spec_nextOnFoundation_def InvalidCard_def mkCard_def
          suitOf_def rankOf_def ACES_def)
  next
    case (Some t)
    with foundationTop_Some [OF Some] suit show ?thesis
      by (simp add: isNextInFoundation_def spec_nextOnFoundation_def ID_deck NO_CARD_def
          suitOf_def rankOf_def)
  qed
qed

lemma upt8: "[0..<8] = [0, 1, 2, 3, 4, 5, 6, 7]"
  by (simp add: upt_rec)

lemma minRank_spec:
  "(if ID (toCard (foundationTop b 0)) \<noteq> NO_CARD \<and> ID (toCard (foundationTop b 1)) \<noteq> NO_CARD \<and>
       ID (toCard (foundationTop b 2)) \<noteq> NO_CARD \<and> ID (toCard (foundationTop b 3)) \<noteq> NO_CARD
    then min (min (min (int (Rank (toCard (foundationTop b 0))))
                       (int (Rank (toCard (foundationTop b 1)))))
                  (int (Rank (toCard (foundationTop b 2)))))
             (int (Rank (toCard (foundationTop b 3))))
    else - 1) = spec_minRank b"
proof -
  have id: "ID (toCard (foundationTop b s)) = NO_CARD \<longleftrightarrow> foundationTop b s = None" for s
    by (rule ID_toCard_NO_CARD) (rule foundationTop_Some)
  show ?thesis
    unfolding spec_minRank_def upt4 id
    by (auto simp: Let_def rankOf_def min_def)
qed

lemma minRank_spec_suits:
  "(if ID (toCard (foundationTop b CLB)) \<noteq> NO_CARD \<and>
       ID (toCard (foundationTop b DMD)) \<noteq> NO_CARD \<and>
       ID (toCard (foundationTop b HRT)) \<noteq> NO_CARD \<and>
       ID (toCard (foundationTop b SPD)) \<noteq> NO_CARD
    then min (min (min (int (Rank (toCard (foundationTop b CLB))))
                       (int (Rank (toCard (foundationTop b DMD)))))
                  (int (Rank (toCard (foundationTop b HRT)))))
             (int (Rank (toCard (foundationTop b SPD))))
    else - 1) = spec_minRank b"
  unfolding CLB_def DMD_def HRT_def SPD_def by (rule minRank_spec)

lemma AutoMoveCard_spec:
  assumes "length (board l) = 52" and "2 \<le> moves_count (moves l)"
  shows "AutoMoveCard l = spec_AutoMoveCard l"
proof -
  let ?b = "board l"
  let ?fsel = "\<lambda>s. toCard (foundationTop ?b s)"
  let ?os = "map (occupant ?b) [0, 1, 2, 3] @ map (cascadeTop ?b) [0, 1, 2, 3, 4, 5, 6, 7]"
  let ?m = "spec_minRank ?b"
  have os52: "c < 52" if "Some c \<in> set ?os" for c
    using that by (auto dest: occupant_Some [OF sym] cascadeTop_Some [OF sym])
  have cands: "List.map_filter (\<lambda>x. x) ?os = spec_candidates ?b"
    unfolding spec_candidates_def upt4 upt8
    by (simp only: map_filter_append map_filter_id_map [unfolded id_def])
  have f: "getCard (cardAt ?b FC) = ?fsel CLB" "getCard (cardAt ?b FD) = ?fsel DMD"
    "getCard (cardAt ?b FH) = ?fsel HRT" "getCard (cardAt ?b FS) = ?fsel SPD"
    by (simp_all add: getCard_cardAt foundationTop_def const_defs)
  have cl: "[getCard (cardAt ?b 0), getCard (cardAt ?b 1), getCard (cardAt ?b 2),
             getCard (cardAt ?b 3),
             lastInCascade ?b 0, lastInCascade ?b 1, lastInCascade ?b 2, lastInCascade ?b 3,
             lastInCascade ?b 4, lastInCascade ?b 5, lastInCascade ?b 6, lastInCascade ?b 7]
            = map toCard ?os"
    by (simp add: getCard_cardAt lastInCascade_cascadeTop)
  have en: "\<not> moves_count (moves l) < 2" using assms(2) by simp
  have "AutoMoveCard l =
          scanCandidates l (?fsel CLB) (?fsel DMD) (?fsel HRT) (?fsel SPD) ?m (map toCard ?os)"
    unfolding AutoMoveCard_def Let_def f cl minRank_spec_suits using en by (simp only: if_False)
  also have "\<dots> =
     (case find (\<lambda>c. (int (rankOf c) = ?m + 1 \<or> int (rankOf c) = ?m + 2) \<and>
                     isNextInFoundation (suitOf c) (?fsel (suitOf c)) (deck ! c))
                (List.map_filter (\<lambda>x. x) ?os) of
        None \<Rightarrow> (False, l)
      | Some c \<Rightarrow> (True, promote l (?fsel (suitOf c)) (deck ! c) (suitOf c + 4)))"
    by (rule scanCandidates_find) (use os52 in simp_all)
  also have "\<dots> = spec_AutoMoveCard l"
  proof -
    have in52: "c < 52" if "c \<in> set (spec_candidates ?b)" for c
      using that os52 unfolding cands [symmetric] set_map_filter_id by blast
    have pred: "find (\<lambda>c. (int (rankOf c) = ?m + 1 \<or> int (rankOf c) = ?m + 2) \<and>
                     isNextInFoundation (suitOf c) (?fsel (suitOf c)) (deck ! c))
                  (spec_candidates ?b)
                = find (spec_eligible ?b) (spec_candidates ?b)"
      by (rule find_cong) (simp_all add: spec_eligible_def isNextInFoundation_spec in52)
    show ?thesis
    proof (cases "find (spec_eligible ?b) (spec_candidates ?b)")
      case None
      then show ?thesis unfolding cands pred by (simp add: spec_AutoMoveCard_def)
    next
      case (Some c)
      then have "c \<in> set (spec_candidates ?b)" by (auto simp: find_Some_iff)
      then have c: "c < 52" by (rule in52)
      have "promote l (?fsel (suitOf c)) (deck ! c) (suitOf c + 4) = spec_promoted l c"
        using assms(1) c by (rule promote_spec) (rule foundationTop_Some)
      with Some show ?thesis unfolding cands pred by (simp add: spec_AutoMoveCard_def)
    qed
  qed
  finally show ?thesis .
qed

lemma reachable_inv: "reachable l \<Longrightarrow> \<exists>d n. session_inv d n l"
  unfolding reachable_def using session_invariant by blast

lemma moves_count_record: "moves_count (moves_record mv b) = moves_count mv + 1"
  by (simp add: moves_count_def)

section \<open>History and move count\<close>

text \<open>
  Claim C3. In every reachable session state the count of the history is the length of
  its stack plus twice the number of undos performed, and \<open>MoveCount\<close> is that count
  minus 1, floored at 0.
\<close>

theorem count_formula:
  assumes "session d n l"
  shows "moves_count (moves l) = int (length (stack (moves l))) + 2 * int n \<and>
         MoveCount l = max 0 (moves_count (moves l) - 1)"
proof -
  from session_invariant [OF assms] have "undos (moves l) = int n"
    by (simp add: session_inv_def)
  then show ?thesis by (simp add: moves_count_def MoveCount_def)
qed

text \<open>
  Claim C8. In every reachable session state the history holds at least one snapshot,
  the bottom one being the board dealt by the last \<open>NewGame\<close>. \<open>Undo\<close> returns, takes
  a snapshot off only when more than one is there, and keeps the bottom one;
  \<open>Interact\<close>, \<open>AutoMoveCard\<close> and \<open>NewGame\<close> leave a history that is not empty.
\<close>

theorem history_never_empty:
  assumes "session d n l"
  shows "stack (moves l) \<noteq> [] \<and> hd (stack (moves l)) = d \<and>
         (\<exists>l'. Undo l = Some l' \<and> stack (moves l') \<noteq> [] \<and> hd (stack (moves l')) = d \<and>
               stack (moves l') = (if 1 < length (stack (moves l))
                                   then butlast (stack (moves l)) else stack (moves l))) \<and>
         stack (moves (snd (Interact l pick))) \<noteq> [] \<and>
         stack (moves (snd (AutoMoveCard l))) \<noteq> [] \<and>
         (\<exists>l'. NewGame l seed = Some l' \<and> stack (moves l') = [board l'])"
proof -
  from session_invariant [OF assms] have inv: "session_inv d n l" .
  then have ne: "stack (moves l) \<noteq> []" and hd: "hd (stack (moves l)) = d"
    by (simp_all add: session_inv_def)
  from session_inv_Undo [OF inv] obtain l' where u: "Undo l = Some l'"
    and inv': "session_inv d (if length (stack (moves l')) < length (stack (moves l))
                              then Suc n else n) l'"
    by blast
  have st: "stack (moves l') = (if 1 < length (stack (moves l))
                                then butlast (stack (moves l)) else stack (moves l))"
    using u ne by (auto simp: Undo_nonempty split: if_splits)
  have i: "stack (moves (snd (Interact l pick))) \<noteq> []"
    using session_invariant [OF session_Interact [OF assms, of pick]]
    by (simp add: session_inv_def)
  have a: "stack (moves (snd (AutoMoveCard l))) \<noteq> []"
    using session_invariant [OF session_AutoMoveCard [OF assms]]
    by (simp add: session_inv_def)
  obtain l2 where "NewGame l seed = Some l2" "stack (moves l2) = [board l2]"
    using NewGame_Some [of l seed] by auto
  with ne hd u inv' st i a show ?thesis by (auto simp: session_inv_def)
qed

text \<open>
  Claim C5. In every reachable session state, if \<open>Interact\<close> returns true, then \<open>Undo\<close>
  called next returns and restores the board as it was before that \<open>Interact\<close>.
\<close>

theorem interact_undo_restores:
  assumes "reachable l" and "Interact l pick = (True, l')"
  shows "\<exists>l''. Undo l' = Some l'' \<and> board l'' = board l"
proof -
  from reachable_inv [OF assms(1)] obtain d n where inv: "session_inv d n l" by blast
  from Interact_frame [OF assms(2)]
  have st: "stack (moves l') = stack (moves l) @ [board l']" by simp
  from inv have "stack (moves l) \<noteq> []" "last (stack (moves l)) = board l"
    by (simp_all add: session_inv_def)
  then show ?thesis using st by (simp add: Undo_nonempty)
qed

section \<open>Picks outside the ranges\<close>

text \<open>
  Claim C9. In every reachable session state, a pick that is neither a card id (0 to 51)
  nor an empty-pile id (100 to 115) makes \<open>Interact\<close> return false; the board and the
  history stay as they were, and the selection is cleared.
\<close>

theorem invalid_pick_is_noop:
  assumes "reachable l" and "\<not> isCard pick"
    and "\<not> (EMPTY_PILE1 \<le> pick \<and> pick \<le> EMPTY_PILE16)"
  shows "fst (Interact l pick) = False \<and> board (snd (Interact l pick)) = board l \<and>
         moves (snd (Interact l pick)) = moves l \<and>
         snd (Interact l pick) = clearSelected l"
proof -
  have "\<not> canPlaceCard l pick" using assms(2,3) by (auto simp: canPlaceCard_def Let_def)
  moreover have "\<not> canSelectCard (board l) pick" using assms(2) by (simp add: canSelectCard_def)
  ultimately have "\<not> canInteract l pick" by (simp add: canInteract_def)
  then show ?thesis using assms(2) by (simp add: Interact_def Let_def)
qed

section \<open>Undo before the first move\<close>

lemma noMoveSince_moves:
  "noMoveSince l \<Longrightarrow> moves l = \<lparr>stack = [board l], undos = 0\<rparr>"
proof (induction rule: noMoveSince.induct)
  case (fresh_start seed l)
  then show ?case using NewGame_Some [of logic0 seed] by auto
next
  case (fresh_NewGame l seed l')
  then show ?case using NewGame_Some [of l seed] by auto
next
  case (fresh_Interact l pick l')
  then show ?case using Interact_frame [of l pick False l'] by simp
next
  case (fresh_Undo l l')
  then show ?case by (auto simp: Undo_nonempty)
next
  case (fresh_AutoMoveCard l l')
  then show ?case using AutoMoveCard_frame [of l False l'] by simp
next
  case (fresh_clearSelected l)
  then show ?case by simp
qed

lemma Undo_fresh:
  assumes "moves l = \<lparr>stack = [board l], undos = 0\<rparr>"
  shows "Undo l = Some (clearSelected l)"
  using assms by (simp add: Undo_nonempty clearSelected_def)

lemma UndoTimes_fresh:
  assumes "moves l = \<lparr>stack = [board l], undos = 0\<rparr>"
  shows "UndoTimes (Suc k) l = Some (clearSelected l)"
  using assms
proof (induction k arbitrary: l)
  case 0
  then show ?case by (simp add: Undo_fresh)
next
  case (Suc k)
  have "UndoTimes (Suc (Suc k)) l = UndoTimes (Suc k) (clearSelected l)"
    using Suc.prems by (simp add: Undo_fresh)
  also have "\<dots> = Some (clearSelected (clearSelected l))"
    using Suc.prems by (intro Suc.IH) simp
  finally show ?case by (simp add: clearSelected_def)
qed

text \<open>
  Claim C10. While no move has been committed since \<open>NewGame\<close>, any number of \<open>Undo\<close>
  calls in a row leaves the board and the undo counter as they were and clears the
  selection, nothing else; \<open>MoveCount\<close> is 0 before and after.
\<close>

theorem undo_before_first_move:
  assumes "noMoveSince l"
  shows "UndoTimes (Suc k) l = Some (clearSelected l) \<and>
         board (clearSelected l) = board l \<and>
         undos (moves (clearSelected l)) = undos (moves l) \<and>
         MoveCount l = 0 \<and> MoveCount (clearSelected l) = 0"
proof -
  from noMoveSince_moves [OF assms] have m: "moves l = \<lparr>stack = [board l], undos = 0\<rparr>" .
  then show ?thesis
    by (simp add: UndoTimes_fresh MoveCount_def moves_count_def del: UndoTimes.simps)
qed

section \<open>Placing on a foundation card\<close>

text \<open>
  Claim C7. When \<open>Interact\<close> places the selected card on a card \<open>p\<close> that is the visible
  top of a foundation, the new board has \<open>p\<close> at its previous location plus 9999 and
  the selected card at that foundation's slot (4 to 7); \<open>Undo\<close> called next puts \<open>p\<close>
  back at its foundation location.
\<close>

theorem foundation_placement:
  assumes "reachable l" and "isCard p" and "isFoundation (board l ! p)"
    and "Interact l p = (True, l')"
  shows "board l' ! p = board l ! p + HIDDEN_CARD \<and>
         board l' ! selected l = board l ! p \<and>
         isFoundation (board l' ! selected l) \<and>
         (\<exists>l''. Undo l' = Some l'' \<and> board l'' ! p = board l ! p)"
proof -
  from reachable_inv [OF assms(1)] obtain d n where inv: "session_inv d n l" by blast
  then have len: "length (board l) = 52" by (rule session_inv_length)
  from Interact_frame [OF assms(4)] have act: "isSelectionActive l" by simp
  then have s: "selected l < 52" by (simp add: isSelectionActive_def isCard_iff)
  from assms(2) have p: "p < 52" by (simp add: isCard_iff)
  have notpile: "\<not> (EMPTY_PILE1 \<le> p \<and> p \<le> EMPTY_PILE16)"
    using p by (simp add: EMPTY_PILE1_def)
  have notcasc: "\<not> isCascade (board l ! p)"
    using assms(3) by (simp add: isCascade_def isFoundation_def)
  have can: "canInteract l p" using assms(4) by (auto simp: Interact_def Let_def split: if_splits)
  with act assms(4)
  have pl: "placeSelected (clearSelected l) (getCard (selected l)) (GetSelected l) p = (True, l')"
    by (simp add: Interact_def Let_def)
  have idp: "ID (getCard p) = p" using assms(2) by (rule ID_getCard)
  have ids: "ID (getCard (selected l)) = selected l"
    using act by (simp add: isSelectionActive_def ID_getCard)
  from pl notpile notcasc assms(2,3) idp ids
  have rank: "Rank (getCard (selected l)) = Rank (getCard p) + 1"
    and l': "l' = commit (setBoard (setBoard (clearSelected l) p (board l ! p + HIDDEN_CARD))
                           (selected l) (board l ! p))"
    by (auto simp: placeSelected_def Let_def split: if_splits)
  from rank have ne: "selected l \<noteq> p" by auto
  have b1: "board l' ! p = board l ! p + HIDDEN_CARD"
    using ne p len by (simp add: l')
  have b2: "board l' ! selected l = board l ! p"
    using s len by (simp add: l')
  from Interact_frame [OF assms(4)]
  have st: "stack (moves l') = stack (moves l) @ [board l']" by simp
  from inv have "stack (moves l) \<noteq> []" "last (stack (moves l)) = board l"
    by (simp_all add: session_inv_def)
  then have "\<exists>l''. Undo l' = Some l'' \<and> board l'' ! p = board l ! p"
    using st by (simp add: Undo_nonempty)
  with b1 b2 assms(3) show ?thesis by simp
qed


text \<open>
  Claim C6. In every reachable state in which \<open>AutoMoveCard\<close> is enabled (the count of
  the history is at least 2), \<open>AutoMoveCard\<close> does what the specification says: with
  \<open>minRank\<close> the minimum of the four foundation top ranks, or \<open>-1\<close> if a foundation is
  empty, it scans the occupants of the four freecells and then the top cards of the
  eight cascades, and promotes the first candidate of rank \<open>minRank + 1\<close> or
  \<open>minRank + 2\<close> that is the next card of its suit's foundation: the previous top is
  buried, the candidate takes the slot, one snapshot is recorded, the selection is
  cleared if the candidate was the selected card, and the call returns true. If there
  is no such candidate, it returns false and changes nothing.
\<close>

theorem AutoMoveCard_is_spec:
  assumes "reachable l" and "2 \<le> moves_count (moves l)"
  shows "AutoMoveCard l = spec_AutoMoveCard l"
proof -
  from reachable_inv [OF assms(1)] obtain d n where "session_inv d n l" by blast
  then have "length (board l) = 52" by (rule session_inv_length)
  then show ?thesis using assms(2) by (rule AutoMoveCard_spec)
qed

section \<open>The move count over a move, an undo and a second move\<close>

lemma idlePicks_frame:
  "idlePicks l ps = Some l' \<Longrightarrow> moves l' = moves l \<and> board l' = board l"
proof (induction ps arbitrary: l)
  case Nil
  then show ?case by simp
next
  case (Cons p ps)
  obtain r l1 where i: "Interact l p = (r, l1)" by (cases "Interact l p")
  with Cons.prems have r: "\<not> r" and rest: "idlePicks l1 ps = Some l'"
    by (cases r; simp)+
  from Interact_frame [OF i] r have "moves l1 = moves l" "board l1 = board l" by simp_all
  with Cons.IH [OF rest] show ?case by simp
qed

text \<open>
  Claim C4, as amended. In a session started with \<open>NewGame\<close>, \<open>MoveCount\<close> is 0 after
  \<open>NewGame\<close> and 1 after the first successful \<open>Interact\<close> move; after that move and one
  \<open>Undo\<close> it is 2, and after the next successful move it is 3. Picks that move no card
  may come in between.
\<close>

theorem move_count_sequence:
  assumes "NewGame l seed = Some l0" and "idlePicks l0 as = Some la"
    and "Interact la b = (True, l1)" and "Undo l1 = Some l2"
    and "idlePicks l2 cs = Some lc" and "Interact lc e = (True, l3)"
  shows "MoveCount l0 = 0 \<and> MoveCount l1 = 1 \<and> MoveCount l2 = 2 \<and> MoveCount l3 = 3"
proof -
  from assms(1) NewGame_Some [of l seed]
  have m0: "moves l0 = \<lparr>stack = [board l0], undos = 0\<rparr>" by auto
  from idlePicks_frame [OF assms(2)] m0
  have ma: "moves la = \<lparr>stack = [board l0], undos = 0\<rparr>" by simp
  from Interact_frame [OF assms(3)] ma
  have m1: "stack (moves l1) = [board l0, board l1]" "undos (moves l1) = 0" by simp_all
  from assms(4) m1
  have m2: "stack (moves l2) = [board l0]" "undos (moves l2) = 1"
    by (auto simp: Undo_nonempty)
  from idlePicks_frame [OF assms(5)] m2
  have mc: "stack (moves lc) = [board l0]" "undos (moves lc) = 1" by simp_all
  from Interact_frame [OF assms(6)] mc
  have m3: "stack (moves l3) = [board l0, board l3]" "undos (moves l3) = 1" by simp_all
  from m0 m1 m2 m3 show ?thesis by (simp add: MoveCount_def moves_count_def)
qed

section \<open>Game number 3, step by step\<close>

lemma ref_draws_seed3:
  "ref_draws 52 3 [0..<52] 52 =
     [48, 5, 44, 26, 23, 30, 38, 13, 25, 42, 33, 43, 47, 31, 32, 45, 36, 46, 39, 17, 22, 51,
      24, 1, 14, 3, 41, 29, 0, 21, 9, 50, 20, 37, 7, 8, 34, 49, 27, 11, 35, 4, 10, 12, 2, 6,
      40, 18, 28, 15, 19, 16]"
  by (simp add: ref_draws_numeral lcg_next_def lcg_yield_def Let_def cong: let_weak_cong)

lemma replicate_numeral: "replicate (numeral k) x = x # replicate (pred_numeral k) x"
  by (simp add: numeral_eq_Suc)

lemma list_update_numeral: "(x # xs)[numeral k := y] = x # xs[pred_numeral k := y]"
  by (simp add: numeral_eq_Suc)

lemma dealBoard3: "dealBoard deal3 (replicate 52 0) = board3"
  unfolding dealBoard_def ids_upt deal3_def
  by (simp add: upt_rec ID_deck replicate_numeral list_update_numeral board3_def)

lemma NewGame3: "NewGame logic0 3 = Some game3"
proof -
  have "shuffle 3 deck = Some deal3"
    unfolding shuffle_ref_draws ref_draws_seed3 deal3_def ..
  then show ?thesis
    by (simp add: NewGame_def Let_def logic0_def clearSelected_def commit_def moves_reset_def
        moves_record_def dealBoard3 game3_def)
qed

lemma len3: "length board3 = 52" "length board3a = 52" "length board3b = 52"
  by (simp_all add: board3_def board3a_def board3b_def)

lemma getCard_2: "getCard 2 = mkCard 2 2 0 1 ''AH''"
  by (simp add: getCard_def isCard_iff deck_def)

lemma getCard_6: "getCard 6 = mkCard 6 2 1 1 ''2H''"
  by (simp add: getCard_def isCard_iff deck_def)

lemma free3: "0 < emptyFreeCells board3" "0 < emptyFreeCells board3a"
  by (simp_all add: emptyFreeCells_def countEmptyCells_filter emptyPile_iff len3)
     (simp_all add: board3_def board3a_def list_update_numeral)

lemma top3: "isCascade (board3 ! 2)" "cardAt board3 (board3 ! 2 + 8) = NO_CARD"
  by (simp_all add: cardAt_NO_CARD len3) (simp_all add: board3_def isCascade_def MAX_BOARD_ID_def)

lemma top3a: "isCascade (board3a ! 6)" "cardAt board3a (board3a ! 6 + 8) = NO_CARD"
  by (simp_all add: cardAt_NO_CARD len3)
     (simp_all add: board3_def board3a_def isCascade_def MAX_BOARD_ID_def list_update_numeral)

text \<open>Placing a single selected ace on its empty foundation.\<close>

lemma Interact_place_empty_foundation:
  assumes "isSelectionActive l" and "GetSelected l = [selected l]"
    and "isFoundation pileID"
    and "Suit (getCard (selected l)) = pileID - 4" and "Rank (getCard (selected l)) = ACES"
    and "emptyPile (board l) pileID"
  shows "Interact l (EMPTY_PILE1 + pileID)
           = (True, commit (setBoard (clearSelected l) (selected l) pileID))"
proof -
  have nf: "\<not> isFreecell pileID" using assms(3) by (simp add: isFoundation_def isFreecell_def)
  have rng: "EMPTY_PILE1 + pileID \<le> EMPTY_PILE16"
    using assms(3) by (simp add: isFoundation_def const_defs)
  have id: "ID (getCard (selected l)) = selected l"
    using assms(1) by (simp add: isSelectionActive_def ID_getCard)
  have "canPlaceCard l (EMPTY_PILE1 + pileID)"
    using assms nf rng by (simp add: canPlaceCard_def Let_def)
  then show ?thesis
    using assms nf rng id by (simp add: Interact_def canInteract_def placeSelected_def Let_def)
qed

text \<open>Placing a single selected card on the foundation card one rank below it.\<close>

lemma Interact_place_on_foundation:
  assumes "isSelectionActive l" and "GetSelected l = [selected l]"
    and "isCard p" and "isFoundation (board l ! p)"
    and "Suit (getCard (selected l)) = board l ! p - 4"
    and "Rank (getCard (selected l)) = Rank (getCard p) + 1"
  shows "Interact l p
           = (True, commit (setBoard (setBoard (clearSelected l) p (board l ! p + HIDDEN_CARD))
                              (selected l) (board l ! p)))"
proof -
  have np: "(EMPTY_PILE1 \<le> p \<and> p \<le> EMPTY_PILE16) = False"
    using assms(3) by (simp add: isCard_iff EMPTY_PILE1_def)
  have ids: "ID (getCard (selected l)) = selected l"
    using assms(1) by (simp add: isSelectionActive_def ID_getCard)
  have idp: "ID (getCard p) = p" using assms(3) by (rule ID_getCard)
  have suit: "\<not> board l ! p - 4 > SPD" using assms(4) by (auto simp: isFoundation_def SPD_def)
  have "canPlaceCard l p"
    using assms idp suit
    by (simp add: canPlaceCard_def Let_def isNextInFoundation_def isCard_iff NO_CARD_def np)
  then show ?thesis
    using assms ids idp
    by (simp add: Interact_def canInteract_def placeSelected_def Let_def np)
qed

text \<open>On the dealt board: pick the ace of hearts, then the empty heart foundation.\<close>

lemma pick_AH:
  assumes "board l = board3" and "selected l = NO_CARD"
  shows "Interact l 2 = (False, l\<lparr>selected := 2\<rparr>)"
proof (rule Interact_select)
  show "\<not> isSelectionActive l"
    using assms(2) by (simp add: isSelectionActive_def isCard_iff NO_CARD_def)
  show "canSelectCard (board l) 2"
    using top3 free3(1) by (simp add: assms(1) canSelectCard_last isCard_iff)
qed

lemma place_AH:
  assumes "board l = board3" and "selected l = 2"
  shows "Interact l 106 = (True, commit (setBoard (clearSelected l) 2 6))"
proof -
  have "Interact l (EMPTY_PILE1 + 6)
          = (True, commit (setBoard (clearSelected l) (selected l) 6))"
  proof (rule Interact_place_empty_foundation)
    show "isSelectionActive l" by (simp add: assms(2) isSelectionActive_def isCard_iff)
    show "GetSelected l = [selected l]"
      using top3 GetSelected_last [of l] by (simp add: assms isCard_iff)
    show "isFoundation 6" by (simp add: isFoundation_def)
    show "Suit (getCard (selected l)) = 6 - 4" by (simp add: assms(2) getCard_2 mkCard_def)
    show "Rank (getCard (selected l)) = ACES"
      by (simp add: assms(2) getCard_2 mkCard_def ACES_def)
    show "emptyPile (board l) 6"
      unfolding assms(1) by (simp add: emptyPile_iff len3) (simp add: board3_def)
  qed
  then show ?thesis by (simp add: EMPTY_PILE1_def assms(2))
qed

text \<open>With the ace on the foundation: pick the two of hearts, then the ace.\<close>

lemma pick_2H:
  assumes "board l = board3a" and "selected l = NO_CARD"
  shows "Interact l 6 = (False, l\<lparr>selected := 6\<rparr>)"
proof (rule Interact_select)
  show "\<not> isSelectionActive l"
    using assms(2) by (simp add: isSelectionActive_def isCard_iff NO_CARD_def)
  show "canSelectCard (board l) 6"
    using top3a free3(2) by (simp add: assms(1) canSelectCard_last isCard_iff)
qed

lemma at3a: "board3a ! 2 = 6"
  by (simp add: board3a_def board3_def list_update_numeral)

lemma place_2H:
  assumes "board l = board3a" and "selected l = 6"
  shows "Interact l 2
           = (True, commit (setBoard (setBoard (clearSelected l) 2 (6 + HIDDEN_CARD)) 6 6))"
proof -
  have "Interact l 2
          = (True, commit (setBoard (setBoard (clearSelected l) 2 (board l ! 2 + HIDDEN_CARD))
                             (selected l) (board l ! 2)))"
  proof (rule Interact_place_on_foundation)
    show "isSelectionActive l" by (simp add: assms(2) isSelectionActive_def isCard_iff)
    show "GetSelected l = [selected l]"
      using top3a GetSelected_last [of l] by (simp add: assms isCard_iff)
    show "isCard 2" by (simp add: isCard_iff)
    show "isFoundation (board l ! 2)" by (simp add: assms(1) at3a isFoundation_def)
    show "Suit (getCard (selected l)) = board l ! 2 - 4"
      by (simp add: assms at3a getCard_6 mkCard_def)
    show "Rank (getCard (selected l)) = Rank (getCard 2) + 1"
      by (simp add: assms(2) getCard_2 getCard_6 mkCard_def)
  qed
  then show ?thesis by (simp add: assms at3a)
qed

lemma step_pick_AH: "Interact game3 2 = (False, game3\<lparr>selected := 2\<rparr>)"
  by (rule pick_AH) (simp_all add: game3_def)

lemma step_place_AH: "Interact (game3\<lparr>selected := 2\<rparr>) 106 = (True, game3a)"
proof -
  have "commit (setBoard (clearSelected (game3\<lparr>selected := 2\<rparr>)) 2 6) = game3a"
    by (simp add: game3_def game3a_def board3a_def commit_def setBoard_def clearSelected_def
        moves_record_def)
  then show ?thesis using place_AH [of "game3\<lparr>selected := 2\<rparr>"] by (simp add: game3_def)
qed

lemma step_pick_2H: "Interact game3a 6 = (False, game3a\<lparr>selected := 6\<rparr>)"
  by (rule pick_2H) (simp_all add: game3a_def game3_def)

lemma step_place_2H: "Interact (game3a\<lparr>selected := 6\<rparr>) 2 = (True, game3b)"
proof -
  have "commit (setBoard (setBoard (clearSelected (game3a\<lparr>selected := 6\<rparr>)) 2
                 (6 + HIDDEN_CARD)) 6 6) = game3b"
    by (simp add: game3_def game3a_def game3b_def board3b_def commit_def setBoard_def
        clearSelected_def moves_record_def HIDDEN_CARD_def)
  then show ?thesis
    using place_2H [of "game3a\<lparr>selected := 6\<rparr>"] by (simp add: game3a_def game3_def)
qed

lemma step_Undo: "Undo game3a = Some game3u"
  by (simp add: Undo_nonempty game3a_def game3u_def game3_def)

lemma step_pick_AH_again: "Interact game3u 2 = (False, game3u\<lparr>selected := 2\<rparr>)"
  by (rule pick_AH) (simp_all add: game3u_def game3_def)

lemma step_place_AH_again: "Interact (game3u\<lparr>selected := 2\<rparr>) 106 = (True, game3r)"
proof -
  have "commit (setBoard (clearSelected (game3u\<lparr>selected := 2\<rparr>)) 2 6) = game3r"
    by (simp add: game3_def game3u_def game3r_def board3a_def commit_def setBoard_def
        clearSelected_def moves_record_def)
  then show ?thesis
    using place_AH [of "game3u\<lparr>selected := 2\<rparr>"] by (simp add: game3u_def game3_def)
qed

text \<open>The states of the sample session are states of a session.\<close>

lemma session_game3: "session board3 0 game3"
  using session_start [OF NewGame3] by (simp add: game3_def)

lemma session_game3_AH: "session board3 0 (game3\<lparr>selected := 2\<rparr>)"
  using session_Interact [OF session_game3, of 2] by (simp add: step_pick_AH)

lemma session_game3a: "session board3 0 game3a"
  using session_Interact [OF session_game3_AH, of 106] by (simp add: step_place_AH)

lemma session_game3a_2H: "session board3 0 (game3a\<lparr>selected := 6\<rparr>)"
  using session_Interact [OF session_game3a, of 6] by (simp add: step_pick_2H)

lemma session_game3u: "session board3 1 game3u"
  using session_Undo [OF session_game3a step_Undo]
  by (simp add: game3a_def game3u_def game3_def)

lemma reachable_game3: "reachable game3" "reachable (game3\<lparr>selected := 2\<rparr>)"
  "reachable game3a" "reachable (game3a\<lparr>selected := 6\<rparr>)"
  unfolding reachable_def
  using session_game3 session_game3_AH session_game3a session_game3a_2H by blast+

section \<open>The claims on the sample session\<close>

theorem movableStackSize_formula_witness:
  "length board3 = 52 \<and> movableStackSize board3 True = 5 \<and> movableStackSize board3 False = 5"
proof -
  have F: "spec_F board3 = 4" by (simp add: spec_F_def upt_rec board3_def)
  have E: "spec_E board3 = 0" by (simp add: spec_E_def upt_rec board3_def)
  from movableStackSize_formula [OF len3(1), of True]
       movableStackSize_formula [OF len3(1), of False] len3(1)
  show ?thesis by (simp add: F E spec_capacity_def)
qed

theorem count_formula_witness:
  "session board3 1 game3u \<and> moves_count (moves game3u) = 3 \<and> MoveCount game3u = 2"
  using count_formula [OF session_game3u] session_game3u
  by (simp add: game3u_def game3_def)

theorem move_count_sequence_witness:
  "NewGame logic0 3 = Some game3 \<and> idlePicks game3 [2] = Some (game3\<lparr>selected := 2\<rparr>) \<and>
   Interact (game3\<lparr>selected := 2\<rparr>) 106 = (True, game3a) \<and> Undo game3a = Some game3u \<and>
   idlePicks game3u [2] = Some (game3u\<lparr>selected := 2\<rparr>) \<and>
   Interact (game3u\<lparr>selected := 2\<rparr>) 106 = (True, game3r) \<and>
   MoveCount game3 = 0 \<and> MoveCount game3a = 1 \<and> MoveCount game3u = 2 \<and> MoveCount game3r = 3"
proof -
  have i1: "idlePicks game3 [2] = Some (game3\<lparr>selected := 2\<rparr>)"
    by (simp add: step_pick_AH)
  have i2: "idlePicks game3u [2] = Some (game3u\<lparr>selected := 2\<rparr>)"
    by (simp add: step_pick_AH_again)
  from move_count_sequence [OF NewGame3 i1 step_place_AH step_Undo i2 step_place_AH_again]
  show ?thesis
    using NewGame3 i1 step_place_AH step_Undo i2 step_place_AH_again by simp
qed

text \<open>
  In game number 3 the count after the first move and one \<open>Undo\<close> is 2, not 0, and after
  the same move again it is 3, not 1.
\<close>

theorem move_count_counterexample:
  "NewGame logic0 3 = Some game3 \<and> Interact game3 2 = (False, game3\<lparr>selected := 2\<rparr>) \<and>
   Interact (game3\<lparr>selected := 2\<rparr>) 106 = (True, game3a) \<and> MoveCount game3a = 1 \<and>
   Undo game3a = Some game3u \<and> MoveCount game3u \<noteq> 0 \<and>
   Interact game3u 2 = (False, game3u\<lparr>selected := 2\<rparr>) \<and>
   Interact (game3u\<lparr>selected := 2\<rparr>) 106 = (True, game3r) \<and> MoveCount game3r \<noteq> 1"
  using NewGame3 step_pick_AH step_place_AH step_Undo step_pick_AH_again step_place_AH_again
  by (simp add: MoveCount_def moves_count_def game3a_def game3u_def game3r_def game3_def)

theorem interact_undo_restores_witness:
  "reachable (game3\<lparr>selected := 2\<rparr>) \<and>
   Interact (game3\<lparr>selected := 2\<rparr>) 106 = (True, game3a) \<and>
   Undo game3a = Some game3u \<and> board game3u = board (game3\<lparr>selected := 2\<rparr>)"
  using interact_undo_restores [OF reachable_game3(2) step_place_AH]
        reachable_game3(2) step_place_AH step_Undo
  by simp

theorem foundation_placement_witness:
  "reachable (game3a\<lparr>selected := 6\<rparr>) \<and> isCard 2 \<and>
   isFoundation (board (game3a\<lparr>selected := 6\<rparr>) ! 2) \<and>
   Interact (game3a\<lparr>selected := 6\<rparr>) 2 = (True, game3b) \<and>
   board game3b ! 2 = 10005 \<and> board game3b ! 6 = 6 \<and>
   (\<exists>l''. Undo game3b = Some l'' \<and> board l'' ! 2 = 6)"
proof -
  have c: "isCard 2" by (simp add: isCard_iff)
  have b: "board game3a ! 2 = 6" by (simp add: game3a_def at3a)
  then have f: "isFoundation (board (game3a\<lparr>selected := 6\<rparr>) ! 2)"
    by (simp add: isFoundation_def)
  from foundation_placement [OF reachable_game3(4) c f step_place_2H]
  show ?thesis
    using reachable_game3(4) c f step_place_2H by (simp add: b HIDDEN_CARD_def)
qed

theorem history_never_empty_witness:
  "session board3 0 game3a \<and> stack (moves game3a) \<noteq> [] \<and>
   hd (stack (moves game3a)) = board3 \<and> Undo game3a = Some game3u \<and>
   stack (moves game3u) = [board3]"
  using history_never_empty [OF session_game3a, of 2 3] session_game3a step_Undo
  by (simp add: game3u_def game3_def)

theorem invalid_pick_is_noop_witness:
  "reachable (game3a\<lparr>selected := 6\<rparr>) \<and> \<not> isCard 60 \<and>
   \<not> (EMPTY_PILE1 \<le> 60 \<and> 60 \<le> EMPTY_PILE16) \<and>
   Interact (game3a\<lparr>selected := 6\<rparr>) 60 = (False, game3a)"
proof -
  have c: "\<not> isCard 60" by (simp add: isCard_iff)
  have r: "\<not> (EMPTY_PILE1 \<le> 60 \<and> 60 \<le> EMPTY_PILE16)" by (simp add: EMPTY_PILE1_def)
  have "clearSelected (game3a\<lparr>selected := 6\<rparr>) = game3a"
    by (simp add: clearSelected_def game3a_def game3_def)
  with invalid_pick_is_noop [OF reachable_game3(4) c r] reachable_game3(4) c r
  show ?thesis by (simp add: prod_eq_iff)
qed

theorem undo_before_first_move_witness:
  "noMoveSince (game3\<lparr>selected := 2\<rparr>) \<and> UndoTimes 3 (game3\<lparr>selected := 2\<rparr>) = Some game3 \<and>
   MoveCount (game3\<lparr>selected := 2\<rparr>) = 0 \<and> MoveCount game3 = 0"
proof -
  have n: "noMoveSince (game3\<lparr>selected := 2\<rparr>)"
    using fresh_Interact [OF fresh_start [OF NewGame3] step_pick_AH] .
  have "clearSelected (game3\<lparr>selected := 2\<rparr>) = game3"
    by (simp add: clearSelected_def game3_def)
  with undo_before_first_move [OF n, of 2] n show ?thesis
    by (simp add: numeral_3_eq_3 del: UndoTimes.simps)
qed

section \<open>An automatic move in the sample session\<close>

text \<open>A scan over the card ids 0 to 51 that looks at locations is a scan over the board.\<close>

lemma find_nth_enumerate:
  "find (\<lambda>i. P (xs ! (i - k))) [k..<k + length xs]
     = map_option fst (find (\<lambda>p. P (snd p)) (enumerate k xs))"
proof (induction xs arbitrary: k)
  case Nil
  then show ?case by simp
next
  case (Cons x xs)
  have up: "[k..<k + length (x # xs)] = k # [Suc k..<Suc k + length xs]"
    by (simp add: upt_rec)
  have "find (\<lambda>i. P ((x # xs) ! (i - k))) [Suc k..<Suc k + length xs]
          = find (\<lambda>i. P (xs ! (i - Suc k))) [Suc k..<Suc k + length xs]"
  proof (rule find_cong [OF refl])
    fix i assume "i \<in> set [Suc k..<Suc k + length xs]"
    then have "i - k = Suc (i - Suc k)" by auto
    then show "P ((x # xs) ! (i - k)) = P (xs ! (i - Suc k))" by simp
  qed
  with Cons.IH [of "Suc k"] show ?case unfolding up by simp
qed

lemma find_board_enumerate:
  assumes "length b = 52"
  shows "find (\<lambda>cid. P (b ! cid)) [0..<52] = map_option fst (find (\<lambda>p. P (snd p)) (enumerate 0 b))"
  using find_nth_enumerate [of P b 0] assms by simp

lemma occupant_enumerate:
  "length b = 52 \<Longrightarrow>
   occupant b loc = map_option fst (find (\<lambda>p. snd p = loc) (enumerate 0 b))"
  unfolding occupant_def by (rule find_board_enumerate)

lemma occupant_None: "length b = 52 \<Longrightarrow> occupant b loc = None \<longleftrightarrow> loc \<notin> set b"
  unfolding occupant_def by (rule find_board_None)

lemma cascadeTop_enumerate:
  assumes "length b = 52"
  shows "cascadeTop b col =
           map_option fst
             (find (\<lambda>p. 8 \<le> snd p \<and> snd p \<le> 167 \<and> snd p mod 8 = col \<and> snd p + 8 \<notin> set b)
                (enumerate 0 b))"
  unfolding cascadeTop_def occupant_None [OF assms]
  using find_board_enumerate
          [OF assms, of "\<lambda>loc. 8 \<le> loc \<and> loc \<le> 167 \<and> loc mod 8 = col \<and> loc + 8 \<notin> set b"]
  by simp

lemma board3a_eval:
  "board3a =
     [36, 31, 6, 33, 49, 9, 53, 42, 43, 38, 50, 47, 51, 15, 32, 57, 59, 27, 55, 58, 40, 37,
      28, 12, 30, 16, 11, 46, 56, 35, 13, 21, 22, 18, 44, 48, 24, 41, 14, 26, 54, 34, 17, 19,
      10, 23, 25, 20, 8, 45, 39, 29]"
  by (simp add: board3a_def board3_def list_update_numeral)

lemma candidates3a: "spec_candidates board3a = [28, 15, 19, 16, 34, 6, 40, 18]"
  unfolding spec_candidates_def upt4 upt8
  by (simp add: List.map_filter_simps occupant_enumerate cascadeTop_enumerate board3a_eval)

lemma heart_top3a: "foundationTop board3a 2 = Some 2"
  by (simp add: foundationTop_def occupant_enumerate board3a_eval)

lemma minRank3a: "spec_minRank board3a = - 1"
proof -
  have "foundationTop board3a 0 = None"
    by (simp add: foundationTop_def occupant_None len3) (simp add: board3a_eval)
  then show ?thesis by (simp add: spec_minRank_def upt4)
qed

lemma deck_ranks:
  "rankOf 28 = 7" "rankOf 15 = 3" "rankOf 19 = 4" "rankOf 16 = 4" "rankOf 34 = 8"
  "rankOf 6 = 1" "rankOf 2 = 0" "suitOf 6 = 2"
  by (simp_all add: rankOf_def suitOf_def deck_def mkCard_def)

text \<open>
  The two of hearts, of rank \<open>minRank + 2\<close>, is the first candidate that goes up.
\<close>

lemma eligible3a: "find (spec_eligible board3a) (spec_candidates board3a) = Some 6"
  by (simp add: candidates3a spec_eligible_def minRank3a deck_ranks spec_nextOnFoundation_def
      heart_top3a)

lemma promoted3a: "spec_promoted game3a 6 = game3b"
  by (simp add: spec_promoted_def Let_def deck_ranks game3a_def game3_def heart_top3a
      game3b_def board3b_def at3a)

theorem AutoMoveCard_is_spec_witness:
  "reachable game3a \<and> 2 \<le> moves_count (moves game3a) \<and>
   spec_minRank (board game3a) = - 1 \<and> rankOf 6 = 1 \<and>
   AutoMoveCard game3a = (True, game3b)"
proof -
  have en: "2 \<le> moves_count (moves game3a)"
    by (simp add: moves_count_def game3a_def game3_def)
  have b: "board game3a = board3a" by (simp add: game3a_def)
  have "spec_AutoMoveCard game3a = (True, game3b)"
    by (simp add: spec_AutoMoveCard_def b eligible3a promoted3a)
  with AutoMoveCard_is_spec [OF reachable_game3(3) en] reachable_game3(3) en
  show ?thesis by (simp add: b minRank3a deck_ranks)
qed

end
